theory Spec2Isabelle
  imports Complex_Main "HOL-Library.Log_Nat"
begin

section \<open>Group descriptor and constants\<close>

text \<open>
  The operations of \<^verbatim>\<open>lwgrp_ring_ops.c\<close> work on a descriptor \<^verbatim>\<open>lwgrp_ring\<close> whose
  declaration lives in \<^verbatim>\<open>lwgrp.h\<close>. The fields the two functions read and write are
  modelled as a record. A C \<^verbatim>\<open>int\<close> has 32 bits: the value a variable holds is an
  integer, and the result of an arithmetic operation on \<^verbatim>\<open>int\<close> operands that can
  leave the range from \<open>- 2\<^sup>3\<^sup>1\<close> to \<open>2\<^sup>3\<^sup>1 - 1\<close> is brought back into it by \<open>int32\<close>,
  the wrap-around of two's complement.
\<close>

definition int32 :: "int \<Rightarrow> int" where
  "int32 x = (x + 2147483648) mod 4294967296 - 2147483648"

record lwgrp_ring =
  comm :: nat
  comm_rank :: int
  comm_left :: int
  comm_right :: int
  group_rank :: int
  group_size :: int

text \<open>
  \<^verbatim>\<open>MPI_PROC_NULL\<close> comes from \<^verbatim>\<open>mpi.h\<close>. Only two facts about it are used below: it is
  negative, hence different from every rank of a process, and a send to it or a
  receive from it completes without moving data.
\<close>

definition MPI_PROC_NULL :: int where
  "MPI_PROC_NULL = - 1"

definition LWGRP_SUCCESS :: int where
  "LWGRP_SUCCESS = 0"

definition INDEX_COUNT :: int where
  "INDEX_COUNT = 0"

definition INDEX_CLOSEST :: int where
  "INDEX_CLOSEST = 1"

text \<open>
  Modelled from the spec: \<^verbatim>\<open>lwgrp_ring_set_null\<close> is called by the split but defined in
  another file. The specification describes the null group as the value with group
  size 0 and both neighbours \<^verbatim>\<open>NONE\<close>, its rank being unspecified; the model writes
  exactly these three fields.
\<close>

definition lwgrp_ring_set_null :: "lwgrp_ring \<Rightarrow> lwgrp_ring" where
  "lwgrp_ring_set_null out =
     out\<lparr>comm_left := MPI_PROC_NULL, comm_right := MPI_PROC_NULL, group_size := 0\<rparr>"

text \<open>
  What stops a call short of its \<^verbatim>\<open>return\<close>: a dereference of the null block, an access
  outside the allocated block, an array index outside the array, a negative count, a
  message of another kind or longer than the posted receive, and a wait-all that
  cannot complete because a posted operation has no partner.
\<close>

datatype fault = NullBlock | OutOfBlock | BadIndex | BadCount | Mismatch | Truncated | Stuck

section \<open>The scratch block of the split\<close>

text \<open>
  The split allocates one block of \<open>4 * elements\<close> integers and slices it into four
  buffers. Addresses are offsets into the block, counted in integers, so that two
  accesses alias in the model exactly when they do in the code. The products and sums
  of lines 51 to 65 are computed in \<^verbatim>\<open>int\<close>. An index is added to a buffer by pointer
  arithmetic, which does not wrap; the sums \<open>i + INDEX_COUNT\<close> and \<open>i + INDEX_CLOSEST\<close>
  add 0 or 1 to an even \<^verbatim>\<open>int\<close> and stay in range.
\<close>

definition elements :: "int \<Rightarrow> int" where
  "elements num_bins = int32 (int32 (2 * num_bins) + 1)"

definition send_left_bins :: "int \<Rightarrow> int" where
  "send_left_bins num_bins = int32 (0 * elements num_bins)"

definition recv_left_bins :: "int \<Rightarrow> int" where
  "recv_left_bins num_bins = int32 (1 * elements num_bins)"

definition send_right_bins :: "int \<Rightarrow> int" where
  "send_right_bins num_bins = int32 (2 * elements num_bins)"

definition recv_right_bins :: "int \<Rightarrow> int" where
  "recv_right_bins num_bins = int32 (3 * elements num_bins)"

definition my_bin_index :: "int \<Rightarrow> int" where
  "my_bin_index my_bin = int32 (2 * my_bin)"

definition rank_index :: "int \<Rightarrow> int" where
  "rank_index num_bins = int32 (2 * num_bins)"

text \<open>
  The size of the block in integers: \<open>4 * elements\<close>, a product of two \<^verbatim>\<open>int\<close>s (line 56),
  when \<^verbatim>\<open>lwgrp_malloc\<close> returned a block, nothing when it returned \<^verbatim>\<open>NULL\<close>. A buffer
  lies in the block when its trailing slot does and, if it has any cell before that
  slot, its first cell does.
\<close>

definition block_size :: "int \<Rightarrow> (int \<Rightarrow> int) option \<Rightarrow> int" where
  "block_size num_bins bins =
     (case bins of None \<Rightarrow> 0 | Some _ \<Rightarrow> int32 (4 * elements num_bins))"

definition in_block :: "int \<Rightarrow> (int \<Rightarrow> int) option \<Rightarrow> int \<Rightarrow> bool" where
  "in_block num_bins bins a \<longleftrightarrow> 0 \<le> a \<and> a < block_size num_bins bins"

definition buffer_in_block :: "int \<Rightarrow> (int \<Rightarrow> int) option \<Rightarrow> int \<Rightarrow> bool" where
  "buffer_in_block num_bins bins base \<longleftrightarrow>
     in_block num_bins bins (base + rank_index num_bins) \<and>
     (0 < rank_index num_bins \<longrightarrow> in_block num_bins bins base)"

text \<open>
  The loop that clears the two send buffers (lines 69 to 74). Its bound \<open>2 * num_bins\<close>
  is an even \<^verbatim>\<open>int\<close>, so that \<open>i + 2\<close> does not leave the range while \<open>i\<close> is below it.
\<close>

function init_bins :: "int \<Rightarrow> int \<Rightarrow> (int \<Rightarrow> int) \<Rightarrow> (int \<Rightarrow> int)" where
  "init_bins num_bins i m =
     (if i < int32 (2 * num_bins) then
        init_bins num_bins (i + 2)
          (m(send_left_bins num_bins + (i + INDEX_COUNT) := 0,
             send_right_bins num_bins + (i + INDEX_COUNT) := 0,
             send_left_bins num_bins + (i + INDEX_CLOSEST) := MPI_PROC_NULL,
             send_right_bins num_bins + (i + INDEX_CLOSEST) := MPI_PROC_NULL))
      else m)"
  by pat_completeness auto
termination
  by (relation "measure (\<lambda>(num_bins, i, m). nat (int32 (2 * num_bins) - i))") auto

text \<open>The seeding of the caller's own bin (lines 77 to 82).\<close>

definition seed_bins :: "int \<Rightarrow> int \<Rightarrow> int \<Rightarrow> (int \<Rightarrow> int) \<Rightarrow> (int \<Rightarrow> int)" where
  "seed_bins num_bins my_bin rank m =
     (if my_bin \<ge> 0 then
        m(send_left_bins num_bins + (my_bin_index my_bin + INDEX_COUNT) := 1,
          send_right_bins num_bins + (my_bin_index my_bin + INDEX_COUNT) := 1,
          send_left_bins num_bins + (my_bin_index my_bin + INDEX_CLOSEST) := rank,
          send_right_bins num_bins + (my_bin_index my_bin + INDEX_CLOSEST) := rank)
      else m)"

text \<open>
  The two merge loops of a round (lines 128 to 139 and 142 to 153). Each takes the
  caller's group rank, the group size where it is read, and the hop distance \<^verbatim>\<open>dist\<close>
  (written \<open>hop\<close>, the name \<open>dist\<close> being taken by the metric of the library). The
  difference \<open>rank - dist\<close>, the sum \<open>rank + dist\<close> and the sums of counts are \<^verbatim>\<open>int\<close>
  arithmetic.
\<close>

function merge_from_left :: "int \<Rightarrow> int \<Rightarrow> int \<Rightarrow> int \<Rightarrow> (int \<Rightarrow> int) \<Rightarrow> (int \<Rightarrow> int)" where
  "merge_from_left num_bins rank hop i m =
     (if i < int32 (2 * num_bins) then
        (let m1 = (if int32 (rank - hop) \<ge> 0
                   then m(send_right_bins num_bins + (i + INDEX_COUNT) :=
                            int32 (m (send_right_bins num_bins + (i + INDEX_COUNT))
                                   + m (recv_left_bins num_bins + (i + INDEX_COUNT))))
                   else m);
             m2 = (if m1 (send_right_bins num_bins + (i + INDEX_CLOSEST)) = MPI_PROC_NULL
                   then m1(send_right_bins num_bins + (i + INDEX_CLOSEST) :=
                             m1 (recv_left_bins num_bins + (i + INDEX_CLOSEST)))
                   else m1)
         in merge_from_left num_bins rank hop (i + 2) m2)
      else m)"
  by pat_completeness auto
termination
  by (relation "measure (\<lambda>(num_bins, rank, hop, i, m). nat (int32 (2 * num_bins) - i))") auto

function merge_from_right :: "int \<Rightarrow> int \<Rightarrow> int \<Rightarrow> int \<Rightarrow> int \<Rightarrow> (int \<Rightarrow> int) \<Rightarrow> (int \<Rightarrow> int)" where
  "merge_from_right num_bins rank ranks hop i m =
     (if i < int32 (2 * num_bins) then
        (let m1 = (if int32 (rank + hop) < ranks
                   then m(send_left_bins num_bins + (i + INDEX_COUNT) :=
                            int32 (m (send_left_bins num_bins + (i + INDEX_COUNT))
                                   + m (recv_right_bins num_bins + (i + INDEX_COUNT))))
                   else m);
             m2 = (if m1 (send_left_bins num_bins + (i + INDEX_CLOSEST)) = MPI_PROC_NULL
                   then m1(send_left_bins num_bins + (i + INDEX_CLOSEST) :=
                             m1 (recv_right_bins num_bins + (i + INDEX_CLOSEST)))
                   else m1)
         in merge_from_right num_bins rank ranks hop (i + 2) m2)
      else m)"
  by pat_completeness auto
termination
  by (relation "measure (\<lambda>(num_bins, rank, ranks, hop, i, m). nat (int32 (2 * num_bins) - i))") auto

section \<open>One call of the split, as one process runs it\<close>

text \<open>
  A call receives \<^verbatim>\<open>num_bins\<close>, \<^verbatim>\<open>my_bin\<close> and the input descriptor; the model also
  records what \<^verbatim>\<open>*out\<close> holds before the call and what \<^verbatim>\<open>lwgrp_malloc\<close> returns
  (\<open>None\<close> for \<^verbatim>\<open>NULL\<close>, otherwise the contents of the fresh block, which the code does
  not initialise).
\<close>

record split_call =
  c_num_bins :: int
  c_my_bin :: int
  c_in :: lwgrp_ring
  c_out :: lwgrp_ring
  c_bins :: "(int \<Rightarrow> int) option"

text \<open>
  The local variables that live across rounds. \<open>sb_waits\<close> is not a variable of the
  code: it counts the completed calls of \<^verbatim>\<open>MPI_Waitall\<close>.
\<close>

record split_state =
  sb_mem :: "int \<Rightarrow> int"
  sb_left_rank :: int
  sb_right_rank :: int
  sb_my_left :: int
  sb_my_right :: int
  sb_dist :: int
  sb_waits :: nat

definition block_fault :: "(int \<Rightarrow> int) option \<Rightarrow> fault" where
  "block_fault bins = (case bins of None \<Rightarrow> NullBlock | Some _ \<Rightarrow> OutOfBlock)"

text \<open>
  Lines 46 to 96. Both checks of the source have an empty body, so the call goes on
  after them. The clearing loop writes the cells \<open>0\<close> to \<open>2 * num_bins - 1\<close> of both send
  buffers as soon as \<open>0 < 2 * num_bins\<close>, and the seeding writes the two cells at
  \<open>my_bin_index\<close> in both send buffers; each is a fault when it leaves the block.
\<close>

definition split_begin :: "split_call \<Rightarrow> fault + split_state" where
  "split_begin c =
     (let num_bins = c_num_bins c; my_bin = c_my_bin c; bins = c_bins c in
      if 0 < int32 (2 * num_bins) \<and>
         \<not> (in_block num_bins bins (send_left_bins num_bins) \<and>
            in_block num_bins bins (send_left_bins num_bins + (int32 (2 * num_bins) - 1)) \<and>
            in_block num_bins bins (send_right_bins num_bins) \<and>
            in_block num_bins bins (send_right_bins num_bins + (int32 (2 * num_bins) - 1)))
      then Inl (block_fault bins)
      else if my_bin \<ge> 0 \<and>
              \<not> (in_block num_bins bins (send_left_bins num_bins + (my_bin_index my_bin + INDEX_COUNT)) \<and>
                 in_block num_bins bins (send_left_bins num_bins + (my_bin_index my_bin + INDEX_CLOSEST)) \<and>
                 in_block num_bins bins (send_right_bins num_bins + (my_bin_index my_bin + INDEX_COUNT)) \<and>
                 in_block num_bins bins (send_right_bins num_bins + (my_bin_index my_bin + INDEX_CLOSEST)))
      then Inl (block_fault bins)
      else Inr \<lparr>sb_mem = seed_bins num_bins my_bin (comm_rank (c_in c))
                          (init_bins num_bins 0 (case bins of None \<Rightarrow> (\<lambda>a. 0) | Some m \<Rightarrow> m)),
                sb_left_rank = comm_left (c_in c),
                sb_right_rank = comm_right (c_in c),
                sb_my_left = MPI_PROC_NULL,
                sb_my_right = MPI_PROC_NULL,
                sb_dist = 1,
                sb_waits = 0\<rparr>)"

text \<open>The loop condition \<^verbatim>\<open>dist < ranks\<close> (line 97).\<close>

definition split_active :: "split_call \<Rightarrow> split_state \<Rightarrow> bool" where
  "split_active c s \<longleftrightarrow> sb_dist s < group_size (c_in c)"

text \<open>The \<open>elements\<close> integers of a buffer, as a message.\<close>

definition buffer :: "int \<Rightarrow> (int \<Rightarrow> int) \<Rightarrow> int \<Rightarrow> int list" where
  "buffer num_bins m base = map (\<lambda>k. m (base + int k)) [0..<nat (elements num_bins)]"

text \<open>
  What a process posts in one wait-all cycle: its own rank, the sends in the order
  they are posted (destination and message), and the sources of the receives in the
  order they are posted.
\<close>

type_synonym 'm posted = "int \<times> (int \<times> 'm) list \<times> int list"

text \<open>
  Lines 101 to 110: the trailing slot of each send buffer is set to the opposite
  neighbour, then the receive from the left, the send to the right, the receive from
  the right and the send to the left are posted. The round needs the four buffers in
  the block and a buffer length that is not negative.
\<close>

definition split_post :: "split_call \<Rightarrow> split_state \<Rightarrow> fault + (split_state \<times> int list posted)" where
  "split_post c s =
     (let num_bins = c_num_bins c in
      if \<not> (buffer_in_block num_bins (c_bins c) (send_left_bins num_bins) \<and>
             buffer_in_block num_bins (c_bins c) (recv_left_bins num_bins) \<and>
             buffer_in_block num_bins (c_bins c) (send_right_bins num_bins) \<and>
             buffer_in_block num_bins (c_bins c) (recv_right_bins num_bins))
      then Inl (block_fault (c_bins c))
      else if elements num_bins < 0 then Inl BadCount
      else
        (let m1 = (sb_mem s)(send_right_bins num_bins + rank_index num_bins := sb_left_rank s);
             to_right = buffer num_bins m1 (send_right_bins num_bins);
             m2 = m1(send_left_bins num_bins + rank_index num_bins := sb_right_rank s);
             to_left = buffer num_bins m2 (send_left_bins num_bins)
         in Inr (s\<lparr>sb_mem := m2\<rparr>,
                 (comm_rank (c_in c),
                  [(sb_right_rank s, to_right), (sb_left_rank s, to_left)],
                  [sb_left_rank s, sb_right_rank s]))))"

text \<open>
  A completed receive writes the message at the start of its buffer; a receive from
  \<^verbatim>\<open>MPI_PROC_NULL\<close> writes nothing.
\<close>

definition store_msg :: "int \<Rightarrow> int list option \<Rightarrow> (int \<Rightarrow> int) \<Rightarrow> (int \<Rightarrow> int)" where
  "store_msg base msg m =
     (case msg of None \<Rightarrow> m
      | Some xs \<Rightarrow> (\<lambda>a. if base \<le> a \<and> a < base + int (length xs) then xs ! nat (a - base) else m a))"

definition msg_fits :: "int \<Rightarrow> int list option \<Rightarrow> bool" where
  "msg_fits num_bins msg = (case msg of None \<Rightarrow> True | Some xs \<Rightarrow> int (length xs) \<le> elements num_bins)"

text \<open>
  Lines 113 to 158, once the four operations have completed: the two snapshots in the
  caller's own bin, the two merges, the new neighbours and the distance shifted left
  by one bit, which is the doubled distance brought back into the range of \<^verbatim>\<open>int\<close>.
  The snapshots read at \<open>my_bin_index\<close> in the receive buffers.
\<close>

definition split_complete ::
  "split_call \<Rightarrow> split_state \<Rightarrow> int list option \<Rightarrow> int list option \<Rightarrow> fault + split_state" where
  "split_complete c s from_left from_right =
     (let num_bins = c_num_bins c; my_bin = c_my_bin c;
          rank = group_rank (c_in c); ranks = group_size (c_in c) in
      if \<not> (msg_fits num_bins from_left \<and> msg_fits num_bins from_right) then Inl Truncated
      else if sb_my_left s = MPI_PROC_NULL \<and> my_bin \<ge> 0 \<and>
              \<not> in_block num_bins (c_bins c) (recv_left_bins num_bins + (my_bin_index my_bin + INDEX_CLOSEST))
      then Inl (block_fault (c_bins c))
      else if sb_my_right s = MPI_PROC_NULL \<and> my_bin \<ge> 0 \<and>
              \<not> in_block num_bins (c_bins c) (recv_right_bins num_bins + (my_bin_index my_bin + INDEX_CLOSEST))
      then Inl (block_fault (c_bins c))
      else
        (let m = store_msg (recv_right_bins num_bins) from_right
                   (store_msg (recv_left_bins num_bins) from_left (sb_mem s));
             my_left = (if sb_my_left s = MPI_PROC_NULL \<and> my_bin \<ge> 0
                        then m (recv_left_bins num_bins + (my_bin_index my_bin + INDEX_CLOSEST))
                        else sb_my_left s);
             my_right = (if sb_my_right s = MPI_PROC_NULL \<and> my_bin \<ge> 0
                         then m (recv_right_bins num_bins + (my_bin_index my_bin + INDEX_CLOSEST))
                         else sb_my_right s);
             m3 = merge_from_left num_bins rank (sb_dist s) 0 m;
             m4 = merge_from_right num_bins rank ranks (sb_dist s) 0 m3
         in Inr \<lparr>sb_mem = m4,
                   sb_left_rank = m4 (recv_left_bins num_bins + rank_index num_bins),
                   sb_right_rank = m4 (recv_right_bins num_bins + rank_index num_bins),
                   sb_my_left = my_left,
                   sb_my_right = my_right,
                   sb_dist = int32 (2 * sb_dist s),
                   sb_waits = Suc (sb_waits s)\<rparr>))"

text \<open>
  Lines 161 to 189. The result carries the returned code, the descriptor left in
  \<^verbatim>\<open>*out\<close> and the number of rounds the call went through.
\<close>

record split_result =
  r_code :: int
  r_out :: lwgrp_ring
  r_rounds :: nat

definition split_finish :: "split_call \<Rightarrow> split_state \<Rightarrow> split_result" where
  "split_finish c s =
     (let num_bins = c_num_bins c; my_bin = c_my_bin c; ranks = group_size (c_in c);
          my_left = (if ranks = 1 then comm_rank (c_in c) else sb_my_left s);
          my_right = (if ranks = 1 then comm_rank (c_in c) else sb_my_right s)
      in \<lparr>r_code = LWGRP_SUCCESS,
          r_out =
            (if my_bin \<ge> 0 then
               (let count_left =
                      int32 (sb_mem s (send_right_bins num_bins + (my_bin_index my_bin + INDEX_COUNT)) - 1);
                    count_right =
                      int32 (sb_mem s (send_left_bins num_bins + (my_bin_index my_bin + INDEX_COUNT)) - 1)
                in (c_out c)\<lparr>comm := comm (c_in c),
                             comm_rank := comm_rank (c_in c),
                             comm_left := my_left,
                             comm_right := my_right,
                             group_rank := count_left,
                             group_size := int32 (int32 (count_left + count_right) + 1)\<rparr>)
             else lwgrp_ring_set_null (c_out c)),
          r_rounds = sb_waits s\<rparr>)"

section \<open>The transport\<close>

text \<open>
  The transport is MPI, outside the repository. The model is one wait-all cycle of all
  processes at once, with the matching rule of MPI for one communicator and one tag:
  the receives a process posts for a source are matched, in the order posted, with the
  sends that source posts for this process, in the order posted. A cycle completes
  when every receive from a rank other than \<^verbatim>\<open>MPI_PROC_NULL\<close> finds its send and every
  send to such a rank is received; otherwise some process never leaves its wait-all.
\<close>

definition proc_index :: "'m posted list \<Rightarrow> int \<Rightarrow> nat option" where
  "proc_index ps r = List.find (\<lambda>i. fst (ps ! i) = r) [0..<length ps]"

definition msgs_to :: "(int \<times> 'm) list \<Rightarrow> int \<Rightarrow> 'm list" where
  "msgs_to sends r = map snd (filter (\<lambda>x. fst x = r) sends)"

definition recvs_from :: "int list \<Rightarrow> int \<Rightarrow> nat" where
  "recvs_from rs s = length (filter (\<lambda>x. x = s) rs)"

text \<open>
  The message that completes the \<open>j\<close>-th receive of process \<open>p\<close>: \<open>Some None\<close> for a
  receive from \<^verbatim>\<open>MPI_PROC_NULL\<close>, \<open>None\<close> when no send matches it.
\<close>

definition deliver :: "'m posted list \<Rightarrow> nat \<Rightarrow> nat \<Rightarrow> 'm option option" where
  "deliver ps p j =
     (let r = fst (ps ! p); rs = snd (snd (ps ! p)); s = rs ! j in
      if s = MPI_PROC_NULL then Some None
      else (case proc_index ps s of
              None \<Rightarrow> None
            | Some q \<Rightarrow>
                (let ms = msgs_to (fst (snd (ps ! q))) r; k = recvs_from (take j rs) s
                 in if k < length ms then Some (Some (ms ! k)) else None)))"

text \<open>Every send to a rank other than \<^verbatim>\<open>MPI_PROC_NULL\<close> has its receive.\<close>

definition sends_received :: "'m posted list \<Rightarrow> bool" where
  "sends_received ps =
     list_all (\<lambda>q. list_all (\<lambda>x. fst x = MPI_PROC_NULL \<or>
                      (case proc_index ps (fst x) of
                         None \<Rightarrow> False
                       | Some p \<Rightarrow> length (msgs_to (fst (snd q)) (fst x))
                                   = recvs_from (snd (snd (ps ! p))) (fst q)))
                    (fst (snd q))) ps"

fun collect :: "(fault + 'a) list \<Rightarrow> fault + 'a list" where
  "collect [] = Inr []"
| "collect (x # xs) =
     (case x of Inl f \<Rightarrow> Inl f
      | Inr a \<Rightarrow> (case collect xs of Inl f \<Rightarrow> Inl f | Inr as \<Rightarrow> Inr (a # as)))"

section \<open>The split, run by all members of a group\<close>

text \<open>
  The members of the group call the split together; \<open>cs\<close> lists their calls and \<open>ss\<close>
  the states of their local variables. A process that has left its loop posts nothing.
\<close>

definition split_posts :: "split_call list \<Rightarrow> split_state list \<Rightarrow> fault + (split_state \<times> int list posted) list" where
  "split_posts cs ss =
     collect (map (\<lambda>(c, s). if split_active c s then split_post c s
                             else Inr (s, (comm_rank (c_in c), [], [])))
                  (zip cs ss))"

text \<open>
  What member \<open>p\<close> holds when its wait-all returns: \<open>Stuck\<close> when one of its two receives
  is never matched, so that the member never leaves its wait-all.
\<close>

definition split_wait :: "split_call list \<Rightarrow> (split_state \<times> int list posted) list \<Rightarrow> nat \<Rightarrow> fault + split_state" where
  "split_wait cs sp p =
     (let c = cs ! p; s = fst (sp ! p); ps = map snd sp in
      if snd (snd (ps ! p)) = [] then Inr s
      else (case deliver ps p 0 of
              None \<Rightarrow> Inl Stuck
            | Some from_left \<Rightarrow>
                (case deliver ps p 1 of
                   None \<Rightarrow> Inl Stuck
                 | Some from_right \<Rightarrow> split_complete c s from_left from_right)))"

text \<open>
  One round of all members. The result is that of the group as a whole: it is a fault
  as soon as one member ends in a fault, whatever the other members do.
\<close>

definition split_round :: "split_call list \<Rightarrow> split_state list \<Rightarrow> fault + split_state list" where
  "split_round cs ss =
     (case split_posts cs ss of
        Inl f \<Rightarrow> Inl f
      | Inr sp \<Rightarrow>
          if \<not> sends_received (map snd sp) then Inl Stuck
          else collect (map (split_wait cs sp) [0..<length sp]))"

text \<open>
  The loop of line 97, for all members: rounds go on while some member has
  \<^verbatim>\<open>dist < ranks\<close>. The result is \<open>None\<close> when the loop never ends.
\<close>

partial_function (option) split_loop :: "split_call list \<Rightarrow> split_state list \<Rightarrow> (fault + split_state list) option" where
  "split_loop cs ss =
     (if list_ex (\<lambda>(c, s). split_active c s) (zip cs ss) then
        (case split_round cs ss of
           Inl f \<Rightarrow> Some (Inl f)
         | Inr ss' \<Rightarrow> split_loop cs ss')
      else Some (Inr ss))"

definition lwgrp_ring_split_bin :: "split_call list \<Rightarrow> (fault + split_result list) option" where
  "lwgrp_ring_split_bin cs =
     (case collect (map split_begin cs) of
        Inl f \<Rightarrow> Some (Inl f)
      | Inr ss \<Rightarrow>
          (case split_loop cs ss of
             None \<Rightarrow> None
           | Some (Inl f) \<Rightarrow> Some (Inl f)
           | Some (Inr ss') \<Rightarrow> Some (Inr (map (\<lambda>(c, s). split_finish c s) (zip cs ss')))))"

declare split_loop.simps [code]

section \<open>One call of the all-to-all, as one process runs it\<close>

text \<open>
  Buffers are addressed in elements of the datatype. The count and displacement arrays
  are C arrays, modelled as lists with checked access. \<^verbatim>\<open>src_next\<close> and \<^verbatim>\<open>dst_next\<close> are
  declared without a value; the call records what they hold then.
\<close>

record 'a alltoallv_call =
  a_sendbuf :: "int \<Rightarrow> 'a"
  a_sendcounts :: "int list"
  a_senddispls :: "int list"
  a_recvbuf :: "int \<Rightarrow> 'a"
  a_recvcounts :: "int list"
  a_recvdispls :: "int list"
  a_group :: lwgrp_ring
  a_src_next :: int
  a_dst_next :: int

datatype request = Irecv int | Isend int

datatype 'a message = Data "'a list" | Address int

text \<open>
  The local variables that live across rounds and the receive buffer. \<open>al_waits\<close> and
  \<open>al_requests\<close> are not variables of the code: they count the completed calls of
  \<^verbatim>\<open>MPI_Waitall\<close> and list the operations posted so far, latest first.
\<close>

record 'a alltoallv_state =
  al_recvbuf :: "int \<Rightarrow> 'a"
  al_src :: int
  al_dst :: int
  al_src_next :: int
  al_dst_next :: int
  al_dist :: int
  al_waits :: nat
  al_requests :: "request list"

definition array_at :: "int list \<Rightarrow> int \<Rightarrow> int option" where
  "array_at xs i = (if 0 \<le> i \<and> i < int (length xs) then Some (xs ! nat i) else None)"

text \<open>
  Modelled from the spec: \<^verbatim>\<open>lwgrp_type_dtbuf_from_dtbuf\<close> is defined in another file. The
  specification asks for a datatype-aware means to offset into a buffer by an element
  count; with buffers addressed in elements the offset is the displacement itself.
\<close>

definition lwgrp_type_dtbuf_from_dtbuf :: "int \<Rightarrow> int \<Rightarrow> int" where
  "lwgrp_type_dtbuf_from_dtbuf buf displ = buf + displ"

text \<open>Lines 207 to 218.\<close>

definition alltoallv_begin :: "'a alltoallv_call \<Rightarrow> 'a alltoallv_state" where
  "alltoallv_begin c =
     \<lparr>al_recvbuf = a_recvbuf c,
      al_src = comm_left (a_group c),
      al_dst = comm_right (a_group c),
      al_src_next = a_src_next c,
      al_dst_next = a_dst_next c,
      al_dist = 0,
      al_waits = 0,
      al_requests = []\<rparr>"

text \<open>The loop condition \<^verbatim>\<open>dist < ranks\<close> (line 219).\<close>

definition alltoallv_active :: "'a alltoallv_call \<Rightarrow> 'a alltoallv_state \<Rightarrow> bool" where
  "alltoallv_active c s \<longleftrightarrow> al_dist s < group_size (a_group c)"

text \<open>
  Lines 221 to 234: the four arrays are read at \<^verbatim>\<open>src\<close> and \<^verbatim>\<open>dst\<close>, then six operations
  are posted. In the order posted, the sends are the data and \<^verbatim>\<open>src\<close> to \<^verbatim>\<open>dst\<close> and
  \<^verbatim>\<open>dst\<close> to \<^verbatim>\<open>src\<close>; the receives are the data and \<^verbatim>\<open>src_next\<close> from \<^verbatim>\<open>src\<close> and
  \<^verbatim>\<open>dst_next\<close> from \<^verbatim>\<open>dst\<close>.
\<close>

definition alltoallv_post ::
  "'a alltoallv_call \<Rightarrow> 'a alltoallv_state \<Rightarrow> fault + ('a alltoallv_state \<times> 'a message posted)" where
  "alltoallv_post c s =
     (let src = al_src s; dst = al_dst s in
      case (array_at (a_recvdispls c) src, array_at (a_recvcounts c) src,
            array_at (a_senddispls c) dst, array_at (a_sendcounts c) dst) of
        (Some recv_displ, Some recv_count, Some send_displ, Some send_count) \<Rightarrow>
          if recv_count < 0 \<or> send_count < 0 then Inl BadCount
          else
            (let send_ptr = lwgrp_type_dtbuf_from_dtbuf 0 send_displ;
                 payload = map (\<lambda>k. a_sendbuf c (send_ptr + int k)) [0..<nat send_count]
             in Inr (s\<lparr>al_requests :=
                         [Isend src, Isend dst, Irecv dst, Irecv src, Isend dst, Irecv src]
                         @ al_requests s\<rparr>,
                     (comm_rank (a_group c),
                      [(dst, Data payload), (dst, Address src), (src, Address dst)],
                      [src, src, dst])))
      | _ \<Rightarrow> Inl BadIndex)"

text \<open>
  Lines 237 to 244, once the six operations have completed. A receive from
  \<^verbatim>\<open>MPI_PROC_NULL\<close> leaves its target as it was. The increment of \<^verbatim>\<open>dist\<close> is \<^verbatim>\<open>int\<close>
  arithmetic.
\<close>

definition store_data :: "int \<Rightarrow> 'a list \<Rightarrow> (int \<Rightarrow> 'a) \<Rightarrow> (int \<Rightarrow> 'a)" where
  "store_data base xs m =
     (\<lambda>a. if base \<le> a \<and> a < base + int (length xs) then xs ! nat (a - base) else m a)"

definition alltoallv_complete ::
  "'a alltoallv_call \<Rightarrow> 'a alltoallv_state \<Rightarrow> 'a message option \<Rightarrow> 'a message option \<Rightarrow>
   'a message option \<Rightarrow> fault + 'a alltoallv_state" where
  "alltoallv_complete c s got_data got_src got_dst =
     (case (array_at (a_recvdispls c) (al_src s), array_at (a_recvcounts c) (al_src s)) of
        (Some recv_displ, Some recv_count) \<Rightarrow>
          (case (case got_data of
                   None \<Rightarrow> Inr (al_recvbuf s)
                 | Some (Address v) \<Rightarrow> Inl Mismatch
                 | Some (Data xs) \<Rightarrow>
                     if int (length xs) > recv_count then Inl Truncated
                     else Inr (store_data (lwgrp_type_dtbuf_from_dtbuf 0 recv_displ) xs (al_recvbuf s)),
                 case got_src of
                   None \<Rightarrow> Inr (al_src_next s)
                 | Some (Address v) \<Rightarrow> Inr v
                 | Some (Data xs) \<Rightarrow> Inl Mismatch,
                 case got_dst of
                   None \<Rightarrow> Inr (al_dst_next s)
                 | Some (Address v) \<Rightarrow> Inr v
                 | Some (Data xs) \<Rightarrow> Inl Mismatch) of
             (Inr recvbuf, Inr src_next, Inr dst_next) \<Rightarrow>
               Inr (s\<lparr>al_recvbuf := recvbuf,
                       al_src := src_next,
                       al_dst := dst_next,
                       al_src_next := src_next,
                       al_dst_next := dst_next,
                       al_dist := int32 (al_dist s + 1),
                       al_waits := Suc (al_waits s)\<rparr>)
           | (Inl f, _, _) \<Rightarrow> Inl f
           | (_, Inl f, _) \<Rightarrow> Inl f
           | (_, _, Inl f) \<Rightarrow> Inl f)
      | _ \<Rightarrow> Inl BadIndex)"

text \<open>
  Line 247. The result carries the returned code, the receive buffer, the number of
  rounds and the operations posted.
\<close>

record 'a alltoallv_result =
  ar_code :: int
  ar_recvbuf :: "int \<Rightarrow> 'a"
  ar_rounds :: nat
  ar_requests :: "request list"

definition alltoallv_finish :: "'a alltoallv_state \<Rightarrow> 'a alltoallv_result" where
  "alltoallv_finish s =
     \<lparr>ar_code = 0, ar_recvbuf = al_recvbuf s, ar_rounds = al_waits s,
      ar_requests = al_requests s\<rparr>"

section \<open>The all-to-all, run by all members of a group\<close>

definition alltoallv_posts ::
  "'a alltoallv_call list \<Rightarrow> 'a alltoallv_state list \<Rightarrow>
   fault + ('a alltoallv_state \<times> 'a message posted) list" where
  "alltoallv_posts cs ss =
     collect (map (\<lambda>(c, s). if alltoallv_active c s then alltoallv_post c s
                             else Inr (s, (comm_rank (a_group c), [], [])))
                  (zip cs ss))"

definition alltoallv_wait ::
  "'a alltoallv_call list \<Rightarrow> ('a alltoallv_state \<times> 'a message posted) list \<Rightarrow> nat \<Rightarrow>
   fault + 'a alltoallv_state" where
  "alltoallv_wait cs sp p =
     (let c = cs ! p; s = fst (sp ! p); ps = map snd sp in
      if snd (snd (ps ! p)) = [] then Inr s
      else (case (deliver ps p 0, deliver ps p 1, deliver ps p 2) of
              (Some got_data, Some got_src, Some got_dst) \<Rightarrow>
                alltoallv_complete c s got_data got_src got_dst
            | _ \<Rightarrow> Inl Stuck))"

definition alltoallv_round ::
  "'a alltoallv_call list \<Rightarrow> 'a alltoallv_state list \<Rightarrow> fault + 'a alltoallv_state list" where
  "alltoallv_round cs ss =
     (case alltoallv_posts cs ss of
        Inl f \<Rightarrow> Inl f
      | Inr sp \<Rightarrow>
          if \<not> sends_received (map snd sp) then Inl Stuck
          else collect (map (alltoallv_wait cs sp) [0..<length sp]))"

partial_function (option) alltoallv_loop ::
  "'a alltoallv_call list \<Rightarrow> 'a alltoallv_state list \<Rightarrow> (fault + 'a alltoallv_state list) option" where
  "alltoallv_loop cs ss =
     (if list_ex (\<lambda>(c, s). alltoallv_active c s) (zip cs ss) then
        (case alltoallv_round cs ss of
           Inl f \<Rightarrow> Some (Inl f)
         | Inr ss' \<Rightarrow> alltoallv_loop cs ss')
      else Some (Inr ss))"

declare alltoallv_loop.simps [code]

definition lwgrp_ring_alltoallv_linear ::
  "'a alltoallv_call list \<Rightarrow> (fault + 'a alltoallv_result list) option" where
  "lwgrp_ring_alltoallv_linear cs =
     (case alltoallv_loop cs (map alltoallv_begin cs) of
        None \<Rightarrow> None
      | Some (Inl f) \<Rightarrow> Some (Inl f)
      | Some (Inr ss) \<Rightarrow> Some (Inr (map alltoallv_finish ss)))"

section \<open>Groups whose members call together\<close>

text \<open>
  Both functions are collective: every member of the group calls, each with its own
  descriptor. The members are listed in the order of their group ranks. The functions
  are the ring operations of the library, and their descriptors are linked as a ring:
  the left neighbour of the first member is the last member and the right neighbour
  of the last member is the first, so that a group of one is its own neighbour on
  both sides. Ranks of processes are non-negative and pairwise different.
\<close>

definition ring_linked :: "lwgrp_ring list \<Rightarrow> bool" where
  "ring_linked gs \<longleftrightarrow>
     gs \<noteq> [] \<and> distinct (map comm_rank gs) \<and>
     list_all (\<lambda>i. 0 \<le> comm_rank (gs ! i) \<and>
                    group_rank (gs ! i) = int i \<and>
                    group_size (gs ! i) = int (length gs) \<and>
                    comm_left (gs ! i) = comm_rank (gs ! nat ((int i - 1) mod int (length gs))) \<and>
                    comm_right (gs ! i) = comm_rank (gs ! nat ((int i + 1) mod int (length gs))))
              [0..<length gs]"

text \<open>
  A collective call of the split with \<open>num_bins\<close> bins: the members form a ring of at
  most \<open>2\<^sup>3\<^sup>0\<close> members, all pass the same \<open>num_bins\<close> below \<open>2\<^sup>2\<^sup>8\<close>, each passes a bin
  below \<open>num_bins\<close> (any negative value opts out), and each allocation returned a block.
  Within these bounds no \<^verbatim>\<open>int\<close> of the split leaves its range.
\<close>

definition split_ready :: "int \<Rightarrow> split_call list \<Rightarrow> bool" where
  "split_ready num_bins cs \<longleftrightarrow>
     ring_linked (map c_in cs) \<and> length cs \<le> 1073741824 \<and>
     0 \<le> num_bins \<and> num_bins < 268435456 \<and>
     list_all (\<lambda>c. c_num_bins c = num_bins \<and> c_my_bin c < num_bins \<and>
                    (case c_bins c of None \<Rightarrow> False | Some m \<Rightarrow> True)) cs"

text \<open>The bin and the rank of the member at a position, positions taken around the ring.\<close>

definition bin_at :: "split_call list \<Rightarrow> int \<Rightarrow> int" where
  "bin_at cs j = c_my_bin (cs ! nat (j mod int (length cs)))"

definition rank_at :: "split_call list \<Rightarrow> int \<Rightarrow> int" where
  "rank_at cs j = comm_rank (c_in (cs ! nat (j mod int (length cs))))"

text \<open>
  The rank of the first member in bin \<open>b\<close> among the \<open>n\<close> positions \<open>j\<close>, \<open>j + step\<close>,
  \<open>j + 2 * step\<close> and so on around the ring; \<^verbatim>\<open>MPI_PROC_NULL\<close> when none of them is in
  the bin.
\<close>

fun nearest :: "split_call list \<Rightarrow> int \<Rightarrow> int \<Rightarrow> int \<Rightarrow> nat \<Rightarrow> int" where
  "nearest cs b step j 0 = MPI_PROC_NULL"
| "nearest cs b step j (Suc n) =
     (if bin_at cs j = b then rank_at cs j else nearest cs b step (j + step) n)"

text \<open>The number of members in bin \<open>b\<close> at the positions from \<open>lo\<close> to \<open>hi\<close>.\<close>

definition count_bin :: "split_call list \<Rightarrow> int \<Rightarrow> int \<Rightarrow> int \<Rightarrow> int" where
  "count_bin cs b lo hi = int (length (filter (\<lambda>j. bin_at cs j = b) [lo..hi]))"

section \<open>Concrete groups\<close>

definition ring4 :: "nat \<Rightarrow> lwgrp_ring" where
  "ring4 i = \<lparr>comm = 0, comm_rank = int i, comm_left = (int i + 3) mod 4,
              comm_right = (int i + 1) mod 4, group_rank = int i, group_size = 4\<rparr>"

text \<open>
  Four processes of ranks 0 to 3 in a ring. Each sends one integer to each rank:
  process \<open>i\<close> sends \<open>100 * i + d\<close> to rank \<open>d\<close>, and receives the integer of rank \<open>s\<close>
  at offset \<open>s\<close> of a buffer that holds \<open>- 1\<close> everywhere.
\<close>

definition exchange4 :: "int alltoallv_call list" where
  "exchange4 =
     map (\<lambda>i. \<lparr>a_sendbuf = (\<lambda>k. 100 * int i + k), a_sendcounts = [1, 1, 1, 1],
                a_senddispls = [0, 1, 2, 3], a_recvbuf = (\<lambda>k. - 1),
                a_recvcounts = [1, 1, 1, 1], a_recvdispls = [0, 1, 2, 3],
                a_group = ring4 i, a_src_next = 0, a_dst_next = 0\<rparr>) [0, 1, 2, 3]"

definition null_call :: "int alltoallv_call" where
  "null_call =
     \<lparr>a_sendbuf = (\<lambda>k. 7), a_sendcounts = [1], a_senddispls = [0], a_recvbuf = (\<lambda>k. 9),
      a_recvcounts = [1], a_recvdispls = [0],
      a_group = \<lparr>comm = 0, comm_rank = 0, comm_left = MPI_PROC_NULL,
                  comm_right = MPI_PROC_NULL, group_rank = 0, group_size = 0\<rparr>,
      a_src_next = 0, a_dst_next = 0\<rparr>"

text \<open>
  Four processes of ranks 10 to 13 in a ring, splitting into two bins: the first and
  the third choose bin 0, the second bin 1, and the fourth opts out.
\<close>

definition colors4 :: "split_call list" where
  "colors4 =
     map (\<lambda>i. \<lparr>c_num_bins = 2, c_my_bin = [0, 1, 0, - 1] ! i,
                c_in = \<lparr>comm = 0, comm_rank = 10 + int i,
                         comm_left = 10 + (int i + 3) mod 4, comm_right = 10 + (int i + 1) mod 4,
                         group_rank = int i, group_size = 4\<rparr>,
                c_out = \<lparr>comm = 0, comm_rank = 0, comm_left = 0, comm_right = 0,
                          group_rank = 0, group_size = 0\<rparr>,
                c_bins = Some (\<lambda>a. 0)\<rparr>) [0, 1, 2, 3]"


text \<open>
  Five processes of ranks 20 to 24 in a ring, three bins, the bin of each member given by
  the list.
\<close>

definition colors5 :: "int list \<Rightarrow> split_call list" where
  "colors5 bins =
     map (\<lambda>i. \<lparr>c_num_bins = 3, c_my_bin = bins ! i,
                c_in = \<lparr>comm = 0, comm_rank = 20 + int i,
                         comm_left = 20 + (int i + 4) mod 5, comm_right = 20 + (int i + 1) mod 5,
                         group_rank = int i, group_size = 5\<rparr>,
                c_out = \<lparr>comm = 0, comm_rank = 0, comm_left = 0, comm_right = 0,
                          group_rank = 0, group_size = 0\<rparr>,
                c_bins = Some (\<lambda>a. 0)\<rparr>) [0, 1, 2, 3, 4]"



section \<open>Collective calls of the all-to-all\<close>

text \<open>The rank of the member at a position, positions taken around the ring.\<close>

definition member_rank :: "'a alltoallv_call list \<Rightarrow> int \<Rightarrow> int" where
  "member_rank cs j = comm_rank (a_group (cs ! nat (j mod int (length cs))))"

text \<open>
  A collective call of the all-to-all: the members form a ring whose size is an \<^verbatim>\<open>int\<close>;
  the four arrays of every member reach the rank of every member; counts are not
  negative; and what a member sends to another is not longer than what the other
  expects from it.
\<close>

definition alltoallv_ready :: "'a alltoallv_call list \<Rightarrow> bool" where
  "alltoallv_ready cs \<longleftrightarrow>
     ring_linked (map a_group cs) \<and> length cs < 2147483648 \<and>
     list_all (\<lambda>c. list_all (\<lambda>d.
        (let t = comm_rank (a_group d) in
         t < int (length (a_sendcounts c)) \<and> t < int (length (a_senddispls c)) \<and>
         t < int (length (a_recvcounts c)) \<and> t < int (length (a_recvdispls c)) \<and>
         0 \<le> a_sendcounts c ! nat t \<and> 0 \<le> a_recvcounts c ! nat t \<and>
         a_sendcounts c ! nat t \<le> a_recvcounts d ! nat (comm_rank (a_group c)))) cs) cs"

text \<open>The elements a call addresses to rank \<open>t\<close>.\<close>

definition sent :: "'a alltoallv_call \<Rightarrow> int \<Rightarrow> 'a list" where
  "sent c t = map (\<lambda>k. a_sendbuf c (a_senddispls c ! nat t + int k))
                  [0..<nat (a_sendcounts c ! nat t)]"

text \<open>
  The receive buffer of member \<open>i\<close> after \<open>k\<close> rounds in which round \<open>r\<close> brings the
  elements of the member \<open>2 ^ r\<close> positions to the left, and the operations it has
  posted in these rounds, latest first.
\<close>

fun received :: "'a alltoallv_call list \<Rightarrow> nat \<Rightarrow> nat \<Rightarrow> int \<Rightarrow> 'a" where
  "received cs i 0 = a_recvbuf (cs ! i)"
| "received cs i (Suc k) =
     store_data (a_recvdispls (cs ! i) ! nat (member_rank cs (int i - 2 ^ k)))
       (sent (cs ! nat ((int i - 2 ^ k) mod int (length cs))) (member_rank cs (int i)))
       (received cs i k)"

fun posted_log :: "'a alltoallv_call list \<Rightarrow> nat \<Rightarrow> nat \<Rightarrow> request list" where
  "posted_log cs i 0 = []"
| "posted_log cs i (Suc k) =
     [Isend (member_rank cs (int i - 2 ^ k)), Isend (member_rank cs (int i + 2 ^ k)),
      Irecv (member_rank cs (int i + 2 ^ k)), Irecv (member_rank cs (int i - 2 ^ k)),
      Isend (member_rank cs (int i + 2 ^ k)), Irecv (member_rank cs (int i - 2 ^ k))]
     @ posted_log cs i k"

text \<open>
  A group of one process of rank 3, which sends the two elements 45 and 46 at offset 5
  of its send buffer to itself, to be received at offset 7.
\<close>

definition solo_call :: "int alltoallv_call" where
  "solo_call =
     \<lparr>a_sendbuf = (\<lambda>k. 40 + k), a_sendcounts = [0, 0, 0, 2], a_senddispls = [0, 0, 0, 5],
      a_recvbuf = (\<lambda>k. - 1), a_recvcounts = [0, 0, 0, 2], a_recvdispls = [0, 0, 0, 7],
      a_group = \<lparr>comm = 0, comm_rank = 3, comm_left = 3, comm_right = 3,
                  group_rank = 0, group_size = 1\<rparr>,
      a_src_next = 0, a_dst_next = 0\<rparr>"

text \<open>
  The first \<open>k\<close> rounds of the loop, for the claims about the state after each round.
\<close>

fun split_rounds :: "nat \<Rightarrow> split_call list \<Rightarrow> split_state list \<Rightarrow> fault + split_state list" where
  "split_rounds 0 cs ss = Inr ss"
| "split_rounds (Suc k) cs ss =
     (case split_rounds k cs ss of Inl f \<Rightarrow> Inl f | Inr ss' \<Rightarrow> split_round cs ss')"



section \<open>Invariants of the rounds\<close>

text \<open>The member \<open>d\<close> positions after member \<open>i\<close> in a ring of \<open>n\<close>.\<close>

definition nbr :: "nat \<Rightarrow> nat \<Rightarrow> int \<Rightarrow> nat" where
  "nbr n i d = nat ((int i + d) mod int n)"

text \<open>
  The local variables and send buffers of member \<open>i\<close> of the split after \<open>k\<close> rounds: the
  partners are \<open>2 ^ k\<close> positions away, and the cells hold the counts and the closest
  ranks of the \<open>2 ^ k\<close> positions scanned so far.
\<close>

definition scan_inv :: "split_call list \<Rightarrow> int \<Rightarrow> nat \<Rightarrow> nat \<Rightarrow> split_state \<Rightarrow> bool" where
  "scan_inv cs nb k i s \<longleftrightarrow>
     sb_dist s = 2 ^ k \<and> sb_waits s = k \<and>
     sb_left_rank s = rank_at cs (int i - 2 ^ k) \<and>
     sb_right_rank s = rank_at cs (int i + 2 ^ k) \<and>
     sb_my_left s = (if 0 \<le> bin_at cs (int i)
                     then nearest cs (bin_at cs (int i)) (- 1) (int i - 1) (2 ^ k - 1)
                     else MPI_PROC_NULL) \<and>
     sb_my_right s = (if 0 \<le> bin_at cs (int i)
                      then nearest cs (bin_at cs (int i)) 1 (int i + 1) (2 ^ k - 1)
                      else MPI_PROC_NULL) \<and>
     (\<forall>b. 0 \<le> b \<and> b < nb \<longrightarrow>
        sb_mem s (send_right_bins nb + (my_bin_index b + INDEX_COUNT))
          = count_bin cs b (max 0 (int i - 2 ^ k + 1)) (int i) \<and>
        sb_mem s (send_right_bins nb + (my_bin_index b + INDEX_CLOSEST))
          = nearest cs b (- 1) (int i) (2 ^ k) \<and>
        sb_mem s (send_left_bins nb + (my_bin_index b + INDEX_COUNT))
          = count_bin cs b (int i) (min (int (length cs) - 1) (int i + 2 ^ k - 1)) \<and>
        sb_mem s (send_left_bins nb + (my_bin_index b + INDEX_CLOSEST))
          = nearest cs b 1 (int i) (2 ^ k))"

definition scan_inv_all :: "split_call list \<Rightarrow> int \<Rightarrow> nat \<Rightarrow> split_state list \<Rightarrow> bool" where
  "scan_inv_all cs nb k ss \<longleftrightarrow>
     length ss = length cs \<and> (\<forall>i<length cs. scan_inv cs nb k i (ss ! i))"

text \<open>
  The two messages of a round as member \<open>q\<close> sends them, and the state it is in once
  the trailing slots are written.
\<close>

definition right_going :: "split_call list \<Rightarrow> int \<Rightarrow> nat \<Rightarrow> nat \<Rightarrow> int list \<Rightarrow> bool" where
  "right_going cs nb k q msg \<longleftrightarrow>
     length msg = nat (elements nb) \<and>
     msg ! nat (rank_index nb) = rank_at cs (int q - 2 ^ k) \<and>
     (\<forall>b. 0 \<le> b \<and> b < nb \<longrightarrow>
        msg ! nat (my_bin_index b + INDEX_COUNT) = count_bin cs b (max 0 (int q - 2 ^ k + 1)) (int q) \<and>
        msg ! nat (my_bin_index b + INDEX_CLOSEST) = nearest cs b (- 1) (int q) (2 ^ k))"

definition left_going :: "split_call list \<Rightarrow> int \<Rightarrow> nat \<Rightarrow> nat \<Rightarrow> int list \<Rightarrow> bool" where
  "left_going cs nb k q msg \<longleftrightarrow>
     length msg = nat (elements nb) \<and>
     msg ! nat (rank_index nb) = rank_at cs (int q + 2 ^ k) \<and>
     (\<forall>b. 0 \<le> b \<and> b < nb \<longrightarrow>
        msg ! nat (my_bin_index b + INDEX_COUNT)
          = count_bin cs b (int q) (min (int (length cs) - 1) (int q + 2 ^ k - 1)) \<and>
        msg ! nat (my_bin_index b + INDEX_CLOSEST) = nearest cs b 1 (int q) (2 ^ k))"

definition to_right_of :: "int \<Rightarrow> split_state \<Rightarrow> int list" where
  "to_right_of nb s =
     buffer nb ((sb_mem s)(send_right_bins nb + rank_index nb := sb_left_rank s)) (send_right_bins nb)"

definition to_left_of :: "int \<Rightarrow> split_state \<Rightarrow> int list" where
  "to_left_of nb s =
     buffer nb ((sb_mem s)(send_right_bins nb + rank_index nb := sb_left_rank s,
                          send_left_bins nb + rank_index nb := sb_right_rank s)) (send_left_bins nb)"

definition posted_state :: "int \<Rightarrow> split_state \<Rightarrow> split_state" where
  "posted_state nb s =
     s\<lparr>sb_mem := (sb_mem s)(send_right_bins nb + rank_index nb := sb_left_rank s,
                             send_left_bins nb + rank_index nb := sb_right_rank s)\<rparr>"

text \<open>
  The local variables of member \<open>i\<close> of the all-to-all after \<open>k\<close> rounds: its partners
  are the members \<open>2 ^ k\<close> positions to the left and to the right, since each round
  replaces a partner by the partner of that partner.
\<close>

definition al_inv :: "'a alltoallv_call list \<Rightarrow> nat \<Rightarrow> nat \<Rightarrow> 'a alltoallv_state \<Rightarrow> bool" where
  "al_inv cs k i s \<longleftrightarrow>
     al_recvbuf s = received cs i k \<and>
     al_src s = member_rank cs (int i - 2 ^ k) \<and>
     al_dst s = member_rank cs (int i + 2 ^ k) \<and>
     al_dist s = int k \<and> al_waits s = k \<and> al_requests s = posted_log cs i k"

definition al_inv_all :: "'a alltoallv_call list \<Rightarrow> nat \<Rightarrow> 'a alltoallv_state list \<Rightarrow> bool" where
  "al_inv_all cs k ss \<longleftrightarrow> length ss = length cs \<and> (\<forall>i<length cs. al_inv cs k i (ss ! i))"

section \<open>Basic facts\<close>

declare init_bins.simps [simp del] merge_from_left.simps [simp del] merge_from_right.simps [simp del]

lemma int32_id: "- 2147483648 \<le> x \<Longrightarrow> x < 2147483648 \<Longrightarrow> int32 x = x"
  by (simp add: int32_def)

lemma exact_layout:
  assumes "0 \<le> nb" "nb < 268435456"
  shows "int32 (2 * nb) = 2 * nb" "elements nb = 2 * nb + 1" "rank_index nb = 2 * nb"
    "send_left_bins nb = 0" "recv_left_bins nb = 2 * nb + 1"
    "send_right_bins nb = 2 * (2 * nb + 1)" "recv_right_bins nb = 3 * (2 * nb + 1)"
    "block_size nb (Some m) = 4 * (2 * nb + 1)"
proof -
  show d: "int32 (2 * nb) = 2 * nb"
    using assms by (intro int32_id) simp_all
  show e: "elements nb = 2 * nb + 1"
    unfolding elements_def d using assms by (intro int32_id) simp_all
  show "rank_index nb = 2 * nb"
    unfolding rank_index_def by (rule d)
  show "send_left_bins nb = 0"
    by (simp add: send_left_bins_def int32_id)
  show "recv_left_bins nb = 2 * nb + 1"
    unfolding recv_left_bins_def e using assms by (simp add: int32_id)
  show "send_right_bins nb = 2 * (2 * nb + 1)"
    unfolding send_right_bins_def e using assms by (intro int32_id) simp_all
  show "recv_right_bins nb = 3 * (2 * nb + 1)"
    unfolding recv_right_bins_def e using assms by (intro int32_id) simp_all
  show "block_size nb (Some m) = 4 * (2 * nb + 1)"
    unfolding block_size_def e using assms by (simp add: int32_id)
qed

lemma exact_bin_index: "0 \<le> b \<Longrightarrow> b < 268435456 \<Longrightarrow> my_bin_index b = 2 * b"
  unfolding my_bin_index_def by (intro int32_id) simp_all

lemmas block_defs = exact_layout exact_bin_index INDEX_COUNT_def INDEX_CLOSEST_def
  in_block_def buffer_in_block_def block_fault_def

lemmas layout_defs = int32_def elements_def send_left_bins_def recv_left_bins_def
  send_right_bins_def recv_right_bins_def my_bin_index_def rank_index_def INDEX_COUNT_def
  INDEX_CLOSEST_def block_size_def in_block_def buffer_in_block_def block_fault_def

lemma zip_map_same: "zip xs (map f xs) = map (\<lambda>x. (x, f x)) xs"
  by (induction xs) simp_all

lemma MPI_PROC_NULL_negative: "MPI_PROC_NULL < 0"
  by (simp add: MPI_PROC_NULL_def)

section \<open>A call by a group of one\<close>

lemma idle_loop:
  "\<not> split_active c s \<Longrightarrow> split_loop [c] [s] = Some (Inr [s])"
  by (subst split_loop.simps) simp

lemma one_call:
  "split_begin c = Inr s \<Longrightarrow> \<not> split_active c s \<Longrightarrow>
   lwgrp_ring_split_bin [c] = Some (Inr [split_finish c s])"
  by (simp add: lwgrp_ring_split_bin_def idle_loop)

section \<open>Positions around a ring\<close>

lemma nbr_less: "0 < n \<Longrightarrow> nbr n i d < n"
  by (simp add: nbr_def nat_less_iff)

lemma int_nbr: "0 < n \<Longrightarrow> int (nbr n i d) = (int i + d) mod int n"
  by (simp add: nbr_def)

lemma nbr_nbr: "0 < n \<Longrightarrow> nbr n (nbr n i a) b = nbr n i (a + b)"
  by (simp add: nbr_def mod_add_left_eq add.assoc)

lemma nbr_zero: "i < n \<Longrightarrow> nbr n i 0 = i"
  by (simp add: nbr_def)

lemma nbr_eq_self_iff: "i < n \<Longrightarrow> nbr n i d = i \<longleftrightarrow> int n dvd d"
proof -
  assume i: "i < n"
  have "nbr n i d = i \<longleftrightarrow> (int i + d) mod int n = int i mod int n"
    using i by (simp add: nbr_def nat_eq_iff)
  also have "\<dots> \<longleftrightarrow> int n dvd (int i + d) - int i"
    by (rule mod_eq_dvd_iff)
  finally show ?thesis by simp
qed

lemma proc_index_nth:
  assumes "distinct (map fst ps)" "i < length ps"
  shows "proc_index ps (fst (ps ! i)) = Some i"
proof -
  have "\<And>j. j < length ps \<Longrightarrow> fst (ps ! j) = fst (ps ! i) \<Longrightarrow> j = i"
    using assms by (metis distinct_conv_nth length_map nth_map)
  then show ?thesis
    using assms(2) unfolding proc_index_def find_Some_iff
    by (intro exI [of _ i]) (auto dest: less_trans)
qed

lemma msgs_to_two:
  "msgs_to (map (Pair x) as @ map (Pair y) bs) r = (if x = r then as else []) @ (if y = r then bs else [])"
  by (simp add: msgs_to_def filter_map comp_def)

lemma recvs_from_two:
  "recvs_from (replicate a x @ replicate b y) s = (if x = s then a else 0) + (if y = s then b else 0)"
  by (simp add: recvs_from_def)

lemma take_two:
  "take j (replicate a x @ replicate b y) = replicate (min j a) x @ replicate (min (j - a) b) y"
  by (simp add: min.commute)

lemma nbr_eq_iff: "0 < n \<Longrightarrow> nbr n i a = nbr n i b \<longleftrightarrow> int n dvd (a - b)"
proof -
  assume n: "0 < n"
  have "nbr n i a = nbr n i b \<longleftrightarrow> (int i + a) mod int n = (int i + b) mod int n"
    using n by (simp add: nbr_def nat_eq_iff)
  also have "\<dots> \<longleftrightarrow> int n dvd (int i + a) - (int i + b)"
    by (rule mod_eq_dvd_iff)
  finally show ?thesis by simp
qed

lemma ring_exchange:
  fixes ps :: "'m posted list"
  assumes n: "0 < n" "length ps = n"
    and dist: "distinct (map fst ps)"
    and nonnull: "\<forall>i<n. fst (ps ! i) \<noteq> MPI_PROC_NULL"
    and shape: "\<forall>i<n. snd (ps ! i) =
        (map (Pair (fst (ps ! nbr n i d))) (as i) @ map (Pair (fst (ps ! nbr n i (- d)))) (bs i),
         replicate a (fst (ps ! nbr n i (- d))) @ replicate b (fst (ps ! nbr n i d)))"
    and len: "\<forall>i<n. length (as i) = a \<and> length (bs i) = b"
  shows "sends_received ps"
    and "\<forall>i<n. \<forall>j<a. deliver ps i j = Some (Some (as (nbr n i (- d)) ! j))"
    and "\<forall>i<n. \<forall>j<b. deliver ps i (a + j) = Some (Some (bs (nbr n i d) ! j))"
proof -
  let ?t = "\<lambda>x. fst (ps ! x)"
  have inj: "?t x = ?t y \<longleftrightarrow> x = y" if "x < n" "y < n" for x y
    using that dist n(2)
    by (metis distinct_conv_nth length_map nth_map)
  have idx: "proc_index ps (?t x) = Some x" if "x < n" for x
    using proc_index_nth [OF dist, of x] that n(2) by simp
  have nn: "?t x \<noteq> MPI_PROC_NULL" if "x < n" for x
    using nonnull that by simp
  have lt: "nbr n x e < n" for x e
    using n(1) by (rule nbr_less)
  have sends: "fst (snd (ps ! x)) = map (Pair (?t (nbr n x d))) (as x) @ map (Pair (?t (nbr n x (- d)))) (bs x)"
    and recvs: "snd (snd (ps ! x)) = replicate a (?t (nbr n x (- d))) @ replicate b (?t (nbr n x d))"
    if "x < n" for x
    using shape that by simp_all
  have undo_hop: "nbr n (nbr n x d) (- d) = x" "nbr n (nbr n x (- d)) d = x" if "x < n" for x
    using that n(1) by (simp_all add: nbr_nbr nbr_zero)
  define w where "w \<longleftrightarrow> int n dvd 2 * d"
  have same: "?t (nbr n x d) = ?t (nbr n x (- d)) \<longleftrightarrow> w" for x
    using inj [OF lt lt] nbr_eq_iff [OF n(1), of x d "- d"] by (simp add: w_def)
  have same': "?t (nbr n x (- d)) = ?t (nbr n x d) \<longleftrightarrow> w" for x
    using same [of x] by auto
  have twice: "?t (nbr n (nbr n x d) d) = ?t x \<longleftrightarrow> w" "?t (nbr n (nbr n x (- d)) (- d)) = ?t x \<longleftrightarrow> w"
    if "x < n" for x
  proof -
    have "nbr n (nbr n x d) d = x \<longleftrightarrow> w"
      using nbr_eq_self_iff [OF that, of "d + d"] n(1) by (simp add: nbr_nbr w_def)
    then show "?t (nbr n (nbr n x d) d) = ?t x \<longleftrightarrow> w"
      using inj [OF lt that] by simp
    have "nbr n (nbr n x (- d)) (- d) = x \<longleftrightarrow> w"
      using nbr_eq_self_iff [OF that, of "- d + - d"] n(1) by (simp add: nbr_nbr w_def)
    then show "?t (nbr n (nbr n x (- d)) (- d)) = ?t x \<longleftrightarrow> w"
      using inj [OF lt that] by simp
  qed
  show "\<forall>i<n. \<forall>j<a. deliver ps i j = Some (Some (as (nbr n i (- d)) ! j))"
  proof (intro allI impI)
    fix i j assume i: "i < n" and j: "j < a"
    let ?q = "nbr n i (- d)"
    have src: "snd (snd (ps ! i)) ! j = ?t ?q"
      using j by (simp add: recvs [OF i] nth_append)
    have ms: "msgs_to (fst (snd (ps ! ?q))) (?t i) = as ?q @ (if w then bs ?q else [])"
      using twice(2) [OF i] by (simp add: sends [OF lt] msgs_to_two undo_hop [OF i])
    have k: "recvs_from (take j (snd (snd (ps ! i)))) (?t ?q) = j"
      using j by (simp add: recvs [OF i] recvs_from_def)
    show "deliver ps i j = Some (Some (as ?q ! j))"
      unfolding deliver_def Let_def src
      using nn [OF lt, of i "- d"] idx [OF lt, of i "- d"] len lt [of i "- d"] j
      by (simp add: ms k nth_append)
  qed
  show "\<forall>i<n. \<forall>j<b. deliver ps i (a + j) = Some (Some (bs (nbr n i d) ! j))"
  proof (intro allI impI)
    fix i j assume i: "i < n" and j: "j < b"
    let ?q = "nbr n i d"
    have src: "snd (snd (ps ! i)) ! (a + j) = ?t ?q"
      using j by (simp add: recvs [OF i] nth_append)
    have ms: "msgs_to (fst (snd (ps ! ?q))) (?t i) = (if w then as ?q else []) @ bs ?q"
      using twice(1) [OF i] by (simp add: sends [OF lt] msgs_to_two undo_hop [OF i])
    have k: "recvs_from (take (a + j) (snd (snd (ps ! i)))) (?t ?q) = (if w then a else 0) + j"
      using j same' [of i] by (simp add: recvs [OF i] recvs_from_def)
    show "deliver ps i (a + j) = Some (Some (bs ?q ! j))"
      unfolding deliver_def Let_def src
      using nn [OF lt, of i d] idx [OF lt, of i d] len lt [of i d] j
      by (simp add: ms k nth_append)
  qed
  show "sends_received ps"
    unfolding sends_received_def list_all_iff
  proof (intro ballI)
    fix q x assume q: "q \<in> set ps" and x: "x \<in> set (fst (snd q))"
    from q obtain i where i: "i < n" and qi: "q = ps ! i"
      using n(2) by (auto simp: in_set_conv_nth)
    have fq: "fst q = ?t i" by (simp add: qi)
    from x have "fst x = ?t (nbr n i d) \<or> fst x = ?t (nbr n i (- d))"
      by (auto simp: qi sends [OF i])
    then show "fst x = MPI_PROC_NULL \<or>
        (case proc_index ps (fst x) of None \<Rightarrow> False
         | Some p \<Rightarrow> length (msgs_to (fst (snd q)) (fst x)) = recvs_from (snd (snd (ps ! p))) (fst q))"
    proof
      assume e: "fst x = ?t (nbr n i d)"
      show ?thesis
        using len i lt [of i d] same' [of i] twice(1) [OF i]
        by (simp add: e idx [OF lt] fq qi sends [OF i] msgs_to_two recvs [OF lt] recvs_from_two
            undo_hop [OF i])
    next
      assume e: "fst x = ?t (nbr n i (- d))"
      show ?thesis
        using len i lt [of i "- d"] same [of i] twice(2) [OF i]
        by (simp add: e idx [OF lt] fq qi sends [OF i] msgs_to_two recvs [OF lt] recvs_from_two
            undo_hop [OF i])
    qed
  qed
qed

section \<open>The loops over the scratch block\<close>


lemma init_bins_closed:
  "0 \<le> nb \<Longrightarrow> nb < 268435456 \<Longrightarrow> 0 \<le> i \<Longrightarrow> even i \<Longrightarrow>
   init_bins nb i m =
     (\<lambda>a. if (i \<le> a \<and> a < 2 * nb) \<or>
             (2 * (2 * nb + 1) + i \<le> a \<and> a < 2 * (2 * nb + 1) + 2 * nb)
          then (if even a then 0 else MPI_PROC_NULL) else m a)"
proof (induction nb i m rule: init_bins.induct)
  case (1 nb i m)
  note B = exact_layout(1) [OF "1.prems"(1,2)]
  show ?case
  proof (cases "i < 2 * nb")
    case True
    then have lt: "i < int32 (2 * nb)" by (simp only: B)
    have step: "init_bins nb i m = init_bins nb (i + 2)
          (m(send_left_bins nb + (i + INDEX_COUNT) := 0,
             send_right_bins nb + (i + INDEX_COUNT) := 0,
             send_left_bins nb + (i + INDEX_CLOSEST) := MPI_PROC_NULL,
             send_right_bins nb + (i + INDEX_CLOSEST) := MPI_PROC_NULL))"
      using lt by (subst init_bins.simps) simp
    have next_ok: "0 \<le> i + 2" "even (i + 2)"
      using "1.prems" by simp_all
    show ?thesis
      unfolding step "1.IH" [OF lt "1.prems"(1,2) next_ok]
      using "1.prems" True
      apply (intro ext)
      apply (auto simp: block_defs; presburger)
      done
  next
    case False
    then have n: "\<not> i < int32 (2 * nb)" by (simp add: B)
    have e: "init_bins nb i m = m"
      by (subst init_bins.simps) (simp add: n)
    show ?thesis
      using False by (auto simp: e)
  qed
qed

lemma merge_from_left_cells:
  "0 \<le> nb \<Longrightarrow> nb < 268435456 \<Longrightarrow> 0 \<le> b0 \<Longrightarrow>
   (\<forall>a. a < 2 * (2 * nb + 1) + 2 * b0 \<or> 2 * (2 * nb + 1) + 2 * nb \<le> a \<longrightarrow>
        merge_from_left nb rank hop (2 * b0) m a = m a) \<and>
   (\<forall>b. b0 \<le> b \<and> b < nb \<longrightarrow>
        merge_from_left nb rank hop (2 * b0) m (2 * (2 * nb + 1) + 2 * b)
          = (if int32 (rank - hop) \<ge> 0
             then int32 (m (2 * (2 * nb + 1) + 2 * b) + m ((2 * nb + 1) + 2 * b))
             else m (2 * (2 * nb + 1) + 2 * b)) \<and>
        merge_from_left nb rank hop (2 * b0) m (2 * (2 * nb + 1) + 2 * b + 1)
          = (if m (2 * (2 * nb + 1) + 2 * b + 1) = MPI_PROC_NULL
             then m ((2 * nb + 1) + 2 * b + 1)
             else m (2 * (2 * nb + 1) + 2 * b + 1)))"
proof (induction "nat (nb - b0)" arbitrary: b0 m)
  case 0
  note B = exact_layout(1) [OF "0.prems"(1,2)]
  from 0 have ge: "nb \<le> b0" by simp
  then have n: "\<not> 2 * b0 < int32 (2 * nb)" by (simp add: B)
  have e: "merge_from_left nb rank hop (2 * b0) m = m"
    by (subst merge_from_left.simps) (simp add: n)
  show ?case
    using ge by (auto simp: e)
next
  case (Suc k)
  note B = exact_layout(1) [OF Suc.prems(1,2)]
  note sm = Suc.prems(1,2)
  from Suc have lt: "2 * b0 < 2 * nb" and k: "k = nat (nb - (b0 + 1))" and b1: "0 \<le> b0 + 1"
    by auto
  define m1 where "m1 = (if int32 (rank - hop) \<ge> 0
                 then m(2 * (2 * nb + 1) + 2 * b0 :=
                          int32 (m (2 * (2 * nb + 1) + 2 * b0) + m ((2 * nb + 1) + 2 * b0)))
                 else m)"
  define m2 where "m2 = (if m1 (2 * (2 * nb + 1) + 2 * b0 + 1) = MPI_PROC_NULL
                 then m1(2 * (2 * nb + 1) + 2 * b0 + 1 := m1 ((2 * nb + 1) + 2 * b0 + 1))
                 else m1)"
  have step: "merge_from_left nb rank hop (2 * b0) m = merge_from_left nb rank hop (2 * (b0 + 1)) m2"
    using lt sm
    by (subst merge_from_left.simps) (simp add: B m1_def m2_def Let_def block_defs add.commute add.left_commute)
  have m2_at: "m2 x =
      (if x = 2 * (2 * nb + 1) + 2 * b0
       then (if int32 (rank - hop) \<ge> 0 then int32 (m x + m ((2 * nb + 1) + 2 * b0)) else m x)
       else if x = 2 * (2 * nb + 1) + 2 * b0 + 1
       then (if m x = MPI_PROC_NULL then m ((2 * nb + 1) + 2 * b0 + 1) else m x)
       else m x)" for x
    using lt Suc.prems by (simp add: m2_def m1_def)
  note ih = Suc.hyps(1) [OF k sm b1, of m2]
  have ih1: "merge_from_left nb rank hop (2 * (b0 + 1)) m2 a = m2 a"
    if "a < 2 * (2 * nb + 1) + 2 * (b0 + 1) \<or> 2 * (2 * nb + 1) + 2 * nb \<le> a" for a
    using ih that by blast
  have ih2: "merge_from_left nb rank hop (2 * (b0 + 1)) m2 (2 * (2 * nb + 1) + 2 * b)
          = (if int32 (rank - hop) \<ge> 0
             then int32 (m2 (2 * (2 * nb + 1) + 2 * b) + m2 ((2 * nb + 1) + 2 * b))
             else m2 (2 * (2 * nb + 1) + 2 * b))"
    and ih3: "merge_from_left nb rank hop (2 * (b0 + 1)) m2 (2 * (2 * nb + 1) + 2 * b + 1)
          = (if m2 (2 * (2 * nb + 1) + 2 * b + 1) = MPI_PROC_NULL
             then m2 ((2 * nb + 1) + 2 * b + 1)
             else m2 (2 * (2 * nb + 1) + 2 * b + 1))"
    if "b0 + 1 \<le> b \<and> b < nb" for b
    using ih that by blast+
  show ?case
    unfolding step
  proof (intro conjI allI impI)
    fix a assume a: "a < 2 * (2 * nb + 1) + 2 * b0 \<or> 2 * (2 * nb + 1) + 2 * nb \<le> a"
    then have "merge_from_left nb rank hop (2 * (b0 + 1)) m2 a = m2 a"
      by (intro ih1) auto
    also have "m2 a = m a"
    proof -
      have "a \<noteq> 2 * (2 * nb + 1) + 2 * b0" "a \<noteq> 2 * (2 * nb + 1) + 2 * b0 + 1"
        using a lt by auto
      then show ?thesis by (simp add: m2_at)
    qed
    finally show "merge_from_left nb rank hop (2 * (b0 + 1)) m2 a = m a" .
  next
    fix b assume b: "b0 \<le> b \<and> b < nb"
    show "merge_from_left nb rank hop (2 * (b0 + 1)) m2 (2 * (2 * nb + 1) + 2 * b)
          = (if int32 (rank - hop) \<ge> 0
             then int32 (m (2 * (2 * nb + 1) + 2 * b) + m ((2 * nb + 1) + 2 * b))
             else m (2 * (2 * nb + 1) + 2 * b))"
    proof (cases "b = b0")
      case True
      have "merge_from_left nb rank hop (2 * (b0 + 1)) m2 (2 * (2 * nb + 1) + 2 * b0)
           = m2 (2 * (2 * nb + 1) + 2 * b0)"
        by (intro ih1) auto
      then show ?thesis by (simp add: True m2_at)
    next
      case False
      then have "b0 + 1 \<le> b \<and> b < nb" using b by simp
      moreover from this Suc.prems
      have "2 * (2 * nb + 1) + 2 * b \<noteq> 2 * (2 * nb + 1) + 2 * b0"
        "2 * (2 * nb + 1) + 2 * b \<noteq> 2 * (2 * nb + 1) + 2 * b0 + 1"
        "(2 * nb + 1) + 2 * b \<noteq> 2 * (2 * nb + 1) + 2 * b0"
        "(2 * nb + 1) + 2 * b \<noteq> 2 * (2 * nb + 1) + 2 * b0 + 1"
        by auto
      ultimately show ?thesis using ih2 [of b] by (simp add: m2_at)
    qed
    show "merge_from_left nb rank hop (2 * (b0 + 1)) m2 (2 * (2 * nb + 1) + 2 * b + 1)
          = (if m (2 * (2 * nb + 1) + 2 * b + 1) = MPI_PROC_NULL
             then m ((2 * nb + 1) + 2 * b + 1)
             else m (2 * (2 * nb + 1) + 2 * b + 1))"
    proof (cases "b = b0")
      case True
      have "merge_from_left nb rank hop (2 * (b0 + 1)) m2 (2 * (2 * nb + 1) + 2 * b0 + 1)
           = m2 (2 * (2 * nb + 1) + 2 * b0 + 1)"
        by (intro ih1) auto
      then show ?thesis by (simp add: True m2_at)
    next
      case False
      then have "b0 + 1 \<le> b \<and> b < nb" using b by simp
      moreover from this Suc.prems
      have "2 * (2 * nb + 1) + 2 * b + 1 \<noteq> 2 * (2 * nb + 1) + 2 * b0"
        "2 * (2 * nb + 1) + 2 * b + 1 \<noteq> 2 * (2 * nb + 1) + 2 * b0 + 1"
        "(2 * nb + 1) + 2 * b + 1 \<noteq> 2 * (2 * nb + 1) + 2 * b0"
        "(2 * nb + 1) + 2 * b + 1 \<noteq> 2 * (2 * nb + 1) + 2 * b0 + 1"
        by auto
      ultimately show ?thesis using ih3 [of b] by (simp add: m2_at)
    qed
  qed
qed

lemma merge_from_right_cells:
  "0 \<le> nb \<Longrightarrow> nb < 268435456 \<Longrightarrow> 0 \<le> b0 \<Longrightarrow>
   (\<forall>a. a < 2 * b0 \<or> 2 * nb \<le> a \<longrightarrow>
        merge_from_right nb rank ranks hop (2 * b0) m a = m a) \<and>
   (\<forall>b. b0 \<le> b \<and> b < nb \<longrightarrow>
        merge_from_right nb rank ranks hop (2 * b0) m (2 * b)
          = (if int32 (rank + hop) < ranks
             then int32 (m (2 * b) + m (3 * (2 * nb + 1) + 2 * b))
             else m (2 * b)) \<and>
        merge_from_right nb rank ranks hop (2 * b0) m (2 * b + 1)
          = (if m (2 * b + 1) = MPI_PROC_NULL
             then m (3 * (2 * nb + 1) + 2 * b + 1)
             else m (2 * b + 1)))"
proof (induction "nat (nb - b0)" arbitrary: b0 m)
  case 0
  note B = exact_layout(1) [OF "0.prems"(1,2)]
  from 0 have ge: "nb \<le> b0" by simp
  then have n: "\<not> 2 * b0 < int32 (2 * nb)" by (simp add: B)
  have e: "merge_from_right nb rank ranks hop (2 * b0) m = m"
    by (subst merge_from_right.simps) (simp add: n)
  show ?case
    using ge by (auto simp: e)
next
  case (Suc k)
  note B = exact_layout(1) [OF Suc.prems(1,2)]
  note sm = Suc.prems(1,2)
  from Suc have lt: "2 * b0 < 2 * nb" and k: "k = nat (nb - (b0 + 1))" and b1: "0 \<le> b0 + 1"
    by auto
  define m1 where "m1 = (if int32 (rank + hop) < ranks
                 then m(2 * b0 :=
                          int32 (m (2 * b0) + m (3 * (2 * nb + 1) + 2 * b0)))
                 else m)"
  define m2 where "m2 = (if m1 (2 * b0 + 1) = MPI_PROC_NULL
                 then m1(2 * b0 + 1 := m1 (3 * (2 * nb + 1) + 2 * b0 + 1))
                 else m1)"
  have step: "merge_from_right nb rank ranks hop (2 * b0) m = merge_from_right nb rank ranks hop (2 * (b0 + 1)) m2"
    using lt sm
    by (subst merge_from_right.simps) (simp add: B m1_def m2_def Let_def block_defs add.commute add.left_commute)
  have m2_at: "m2 x =
      (if x = 2 * b0
       then (if int32 (rank + hop) < ranks then int32 (m x + m (3 * (2 * nb + 1) + 2 * b0)) else m x)
       else if x = 2 * b0 + 1
       then (if m x = MPI_PROC_NULL then m (3 * (2 * nb + 1) + 2 * b0 + 1) else m x)
       else m x)" for x
    using lt Suc.prems by (simp add: m2_def m1_def)
  note ih = Suc.hyps(1) [OF k sm b1, of m2]
  have ih1: "merge_from_right nb rank ranks hop (2 * (b0 + 1)) m2 a = m2 a"
    if "a < 2 * (b0 + 1) \<or> 2 * nb \<le> a" for a
    using ih that by blast
  have ih2: "merge_from_right nb rank ranks hop (2 * (b0 + 1)) m2 (2 * b)
          = (if int32 (rank + hop) < ranks
             then int32 (m2 (2 * b) + m2 (3 * (2 * nb + 1) + 2 * b))
             else m2 (2 * b))"
    and ih3: "merge_from_right nb rank ranks hop (2 * (b0 + 1)) m2 (2 * b + 1)
          = (if m2 (2 * b + 1) = MPI_PROC_NULL
             then m2 (3 * (2 * nb + 1) + 2 * b + 1)
             else m2 (2 * b + 1))"
    if "b0 + 1 \<le> b \<and> b < nb" for b
    using ih that by blast+
  show ?case
    unfolding step
  proof (intro conjI allI impI)
    fix a assume a: "a < 2 * b0 \<or> 2 * nb \<le> a"
    then have "merge_from_right nb rank ranks hop (2 * (b0 + 1)) m2 a = m2 a"
      by (intro ih1) auto
    also have "m2 a = m a"
    proof -
      have "a \<noteq> 2 * b0" "a \<noteq> 2 * b0 + 1"
        using a lt by auto
      then show ?thesis by (simp add: m2_at)
    qed
    finally show "merge_from_right nb rank ranks hop (2 * (b0 + 1)) m2 a = m a" .
  next
    fix b assume b: "b0 \<le> b \<and> b < nb"
    show "merge_from_right nb rank ranks hop (2 * (b0 + 1)) m2 (2 * b)
          = (if int32 (rank + hop) < ranks
             then int32 (m (2 * b) + m (3 * (2 * nb + 1) + 2 * b))
             else m (2 * b))"
    proof (cases "b = b0")
      case True
      have "merge_from_right nb rank ranks hop (2 * (b0 + 1)) m2 (2 * b0)
           = m2 (2 * b0)"
        by (intro ih1) auto
      then show ?thesis by (simp add: True m2_at)
    next
      case False
      then have "b0 + 1 \<le> b \<and> b < nb" using b by simp
      moreover from this Suc.prems
      have "2 * b \<noteq> 2 * b0"
        "2 * b \<noteq> 2 * b0 + 1"
        "3 * (2 * nb + 1) + 2 * b \<noteq> 2 * b0"
        "3 * (2 * nb + 1) + 2 * b \<noteq> 2 * b0 + 1"
        by auto
      ultimately show ?thesis using ih2 [of b] by (simp add: m2_at)
    qed
    show "merge_from_right nb rank ranks hop (2 * (b0 + 1)) m2 (2 * b + 1)
          = (if m (2 * b + 1) = MPI_PROC_NULL
             then m (3 * (2 * nb + 1) + 2 * b + 1)
             else m (2 * b + 1))"
    proof (cases "b = b0")
      case True
      have "merge_from_right nb rank ranks hop (2 * (b0 + 1)) m2 (2 * b0 + 1)
           = m2 (2 * b0 + 1)"
        by (intro ih1) auto
      then show ?thesis by (simp add: True m2_at)
    next
      case False
      then have "b0 + 1 \<le> b \<and> b < nb" using b by simp
      moreover from this Suc.prems
      have "2 * b + 1 \<noteq> 2 * b0"
        "2 * b + 1 \<noteq> 2 * b0 + 1"
        "3 * (2 * nb + 1) + 2 * b + 1 \<noteq> 2 * b0"
        "3 * (2 * nb + 1) + 2 * b + 1 \<noteq> 2 * b0 + 1"
        by auto
      ultimately show ?thesis using ih3 [of b] by (simp add: m2_at)
    qed
  qed
qed

lemma merge_left_count:
  assumes "0 \<le> b" "b < nb" "nb < 268435456"
  shows "merge_from_left nb rank hop 0 m (send_right_bins nb + (my_bin_index b + INDEX_COUNT))
    = (if int32 (rank - hop) \<ge> 0
       then int32 (m (send_right_bins nb + (my_bin_index b + INDEX_COUNT))
            + m (recv_left_bins nb + (my_bin_index b + INDEX_COUNT)))
       else m (send_right_bins nb + (my_bin_index b + INDEX_COUNT)))"
  using merge_from_left_cells [of nb 0 rank hop m, THEN conjunct2, rule_format, of b] assms
  by (simp add: block_defs)

lemma merge_left_closest:
  assumes "0 \<le> b" "b < nb" "nb < 268435456"
  shows "merge_from_left nb rank hop 0 m (send_right_bins nb + (my_bin_index b + INDEX_CLOSEST))
    = (if m (send_right_bins nb + (my_bin_index b + INDEX_CLOSEST)) = MPI_PROC_NULL
       then m (recv_left_bins nb + (my_bin_index b + INDEX_CLOSEST))
       else m (send_right_bins nb + (my_bin_index b + INDEX_CLOSEST)))"
  using merge_from_left_cells [of nb 0 rank hop m, THEN conjunct2, rule_format, of b] assms
  by (simp add: block_defs add.assoc)

lemma merge_left_other:
  assumes "0 \<le> nb" "nb < 268435456"
    and "a < send_right_bins nb \<or> send_right_bins nb + rank_index nb \<le> a"
  shows "merge_from_left nb rank hop 0 m a = m a"
  using merge_from_left_cells [of nb 0 rank hop m, THEN conjunct1, rule_format, of a] assms
  by (simp add: block_defs)

lemma merge_right_count:
  assumes "0 \<le> b" "b < nb" "nb < 268435456"
  shows "merge_from_right nb rank ranks hop 0 m (send_left_bins nb + (my_bin_index b + INDEX_COUNT))
    = (if int32 (rank + hop) < ranks
       then int32 (m (send_left_bins nb + (my_bin_index b + INDEX_COUNT))
            + m (recv_right_bins nb + (my_bin_index b + INDEX_COUNT)))
       else m (send_left_bins nb + (my_bin_index b + INDEX_COUNT)))"
  using merge_from_right_cells [of nb 0 rank ranks hop m, THEN conjunct2, rule_format, of b] assms
  by (simp add: block_defs)

lemma merge_right_closest:
  assumes "0 \<le> b" "b < nb" "nb < 268435456"
  shows "merge_from_right nb rank ranks hop 0 m (send_left_bins nb + (my_bin_index b + INDEX_CLOSEST))
    = (if m (send_left_bins nb + (my_bin_index b + INDEX_CLOSEST)) = MPI_PROC_NULL
       then m (recv_right_bins nb + (my_bin_index b + INDEX_CLOSEST))
       else m (send_left_bins nb + (my_bin_index b + INDEX_CLOSEST)))"
  using merge_from_right_cells [of nb 0 rank ranks hop m, THEN conjunct2, rule_format, of b] assms
  by (simp add: block_defs add.assoc)

lemma merge_right_other:
  assumes "0 \<le> nb" "nb < 268435456"
    and "a < send_left_bins nb \<or> send_left_bins nb + rank_index nb \<le> a"
  shows "merge_from_right nb rank ranks hop 0 m a = m a"
  using merge_from_right_cells [of nb 0 rank ranks hop m, THEN conjunct1, rule_format, of a] assms
  by (simp add: block_defs)

lemma init_seed_cells:
  assumes "0 \<le> b" "b < nb" "mb < nb" "nb < 268435456"
  shows "seed_bins nb mb r (init_bins nb 0 m) (send_left_bins nb + (my_bin_index b + INDEX_COUNT))
           = (if b = mb then 1 else 0)"
    and "seed_bins nb mb r (init_bins nb 0 m) (send_right_bins nb + (my_bin_index b + INDEX_COUNT))
           = (if b = mb then 1 else 0)"
    and "seed_bins nb mb r (init_bins nb 0 m) (send_left_bins nb + (my_bin_index b + INDEX_CLOSEST))
           = (if b = mb then r else MPI_PROC_NULL)"
    and "seed_bins nb mb r (init_bins nb 0 m) (send_right_bins nb + (my_bin_index b + INDEX_CLOSEST))
           = (if b = mb then r else MPI_PROC_NULL)"
  using assms by (auto simp: seed_bins_def init_bins_closed block_defs)

lemma buffer_length: "length (buffer nb m base) = nat (elements nb)"
  by (simp add: buffer_def)

lemma buffer_nth: "0 \<le> j \<Longrightarrow> j < elements nb \<Longrightarrow> buffer nb m base ! nat j = m (base + j)"
  by (simp add: buffer_def)

lemma store_msg_inside:
  "0 \<le> j \<Longrightarrow> j < int (length xs) \<Longrightarrow> store_msg base (Some xs) m (base + j) = xs ! nat j"
  by (simp add: store_msg_def)

lemma store_msg_outside:
  "a < base \<or> base + int (length xs) \<le> a \<Longrightarrow> store_msg base (Some xs) m a = m a"
  by (auto simp: store_msg_def)

section \<open>The state of the scan after a number of rounds\<close>

lemma bin_at_mod: "bin_at cs (j mod int (length cs)) = bin_at cs j"
  by (simp add: bin_at_def)

lemma rank_at_mod: "rank_at cs (j mod int (length cs)) = rank_at cs j"
  by (simp add: rank_at_def)

lemma bin_at_nth: "i < length cs \<Longrightarrow> bin_at cs (int i) = c_my_bin (cs ! i)"
  by (simp add: bin_at_def)

lemma rank_at_nth: "i < length cs \<Longrightarrow> rank_at cs (int i) = comm_rank (c_in (cs ! i))"
  by (simp add: rank_at_def)

lemma nearest_mod: "nearest cs b st (j mod int (length cs)) n = nearest cs b st j n"
proof (induction n arbitrary: j)
  case 0
  show ?case by simp
next
  case (Suc n)
  have "nearest cs b st (j mod int (length cs) + st) n
        = nearest cs b st ((j mod int (length cs) + st) mod int (length cs)) n"
    by (rule Suc [symmetric])
  also have "(j mod int (length cs) + st) mod int (length cs) = (j + st) mod int (length cs)"
    by (rule mod_add_left_eq)
  also have "nearest cs b st ((j + st) mod int (length cs)) n = nearest cs b st (j + st) n"
    by (rule Suc)
  finally have "nearest cs b st (j mod int (length cs) + st) n = nearest cs b st (j + st) n" .
  then show ?case
    by (simp add: bin_at_mod rank_at_mod)
qed

lemma nearest_add:
  assumes "\<And>j. rank_at cs j \<noteq> MPI_PROC_NULL"
  shows "nearest cs b st j (m + n) =
     (if nearest cs b st j m = MPI_PROC_NULL then nearest cs b st (j + st * int m) n
      else nearest cs b st j m)"
proof (induction m arbitrary: j)
  case 0
  show ?case by simp
next
  case (Suc m)
  have e: "j + st * int (Suc m) = j + st + st * int m"
    by (simp add: algebra_simps)
  show ?case
    unfolding e using assms [of j] Suc [of "j + st"] by simp
qed

lemma count_bin_split:
  "lo \<le> mid + 1 \<Longrightarrow> mid \<le> hi \<Longrightarrow>
   count_bin cs b lo mid + count_bin cs b (mid + 1) hi = count_bin cs b lo hi"
proof -
  assume a: "lo \<le> mid + 1" "mid \<le> hi"
  have "[lo..hi] = [lo..mid] @ [mid + 1..hi]"
  proof (cases "lo \<le> mid")
    case True
    then show ?thesis using a by (intro upto_split2)
  next
    case False
    then have "lo = mid + 1" using a by simp
    then show ?thesis by simp
  qed
  then show ?thesis by (simp add: count_bin_def)
qed

lemma count_bin_single: "count_bin cs b j j = (if bin_at cs j = b then 1 else 0)"
  by (simp add: count_bin_def)

section \<open>What a member posts in a round\<close>

lemma odd_not_even_int: "2 * (b::int) + 1 \<noteq> 2 * n"
  by presburger

lemma split_post_eq:
  assumes "c_num_bins c = nb" "0 \<le> nb" "nb < 268435456" "c_bins c = Some m0"
  shows "split_post c s =
     Inr (posted_state nb s,
          (comm_rank (c_in c),
           [(sb_right_rank s, to_right_of nb s), (sb_left_rank s, to_left_of nb s)],
           [sb_left_rank s, sb_right_rank s]))"
  using assms
  by (simp add: split_post_def Let_def posted_state_def to_right_of_def to_left_of_def block_defs)

lemma posted_state_inv:
  assumes "scan_inv cs nb k i s" "0 \<le> nb" "nb < 268435456"
  shows "scan_inv cs nb k i (posted_state nb s)"
  using assms unfolding scan_inv_def posted_state_def
  by (simp add: block_defs)

lemma to_right_going:
  assumes "scan_inv cs nb k i s" "0 \<le> nb" "nb < 268435456"
  shows "right_going cs nb k i (to_right_of nb s)"
proof -
  have cell: "to_right_of nb s ! nat (my_bin_index b + j)
       = sb_mem s (send_right_bins nb + (my_bin_index b + j))"
    if "0 \<le> b" "b < nb" "j = INDEX_COUNT \<or> j = INDEX_CLOSEST" for b j
    unfolding to_right_of_def
    by (subst buffer_nth) (use that assms(2,3) in \<open>auto simp: block_defs dest: odd_not_even_int [THEN notE]\<close>)
  have last: "to_right_of nb s ! nat (rank_index nb) = sb_left_rank s"
    using assms(2,3) unfolding to_right_of_def
    by (subst buffer_nth) (auto simp: block_defs)
  show ?thesis
    using assms(1) unfolding right_going_def scan_inv_def
    by (simp add: cell last) (simp add: to_right_of_def buffer_length)
qed

lemma to_left_going:
  assumes "scan_inv cs nb k i s" "0 \<le> nb" "nb < 268435456"
  shows "left_going cs nb k i (to_left_of nb s)"
proof -
  have cell: "to_left_of nb s ! nat (my_bin_index b + j)
       = sb_mem s (send_left_bins nb + (my_bin_index b + j))"
    if "0 \<le> b" "b < nb" "j = INDEX_COUNT \<or> j = INDEX_CLOSEST" for b j
    unfolding to_left_of_def
    by (subst buffer_nth) (use that assms(2,3) in \<open>auto simp: block_defs dest: odd_not_even_int [THEN notE]\<close>)
  have last: "to_left_of nb s ! nat (rank_index nb) = sb_right_rank s"
    using assms(2,3) unfolding to_left_of_def
    by (subst buffer_nth) (auto simp: block_defs)
  show ?thesis
    using assms(1) unfolding left_going_def scan_inv_def
    by (simp add: cell last) (simp add: to_left_of_def buffer_length)
qed

section \<open>What a member holds after a round\<close>

lemma layout:
  assumes "0 \<le> nb" "nb < 268435456" "0 \<le> b" "b < nb"
  shows "0 \<le> my_bin_index b + INDEX_COUNT" "my_bin_index b + INDEX_COUNT < elements nb"
    "0 \<le> my_bin_index b + INDEX_CLOSEST" "my_bin_index b + INDEX_CLOSEST < elements nb"
    "my_bin_index b + INDEX_COUNT < rank_index nb" "my_bin_index b + INDEX_CLOSEST < rank_index nb"
  using assms odd_not_even_int [of b nb] by (auto simp: block_defs)

lemma layout_rank:
  "0 \<le> nb \<Longrightarrow> nb < 268435456 \<Longrightarrow> 0 \<le> rank_index nb \<and> rank_index nb < elements nb"
  by (simp add: block_defs)

lemma count_bin_window:
  assumes "0 \<le> lo" "hi < N" "0 \<le> N"
  shows "0 \<le> count_bin cs b lo hi \<and> count_bin cs b lo hi \<le> N"
proof -
  have "length (filter (\<lambda>j. bin_at cs j = b) [lo..hi]) \<le> length [lo..hi]"
    by (rule length_filter_le)
  then have "int (length (filter (\<lambda>j. bin_at cs j = b) [lo..hi])) \<le> int (nat (hi - lo + 1))"
    by (subst of_nat_le_iff) simp
  then show ?thesis
    using assms unfolding count_bin_def by linarith
qed

lemma split_complete_inv:
  assumes c: "c_num_bins c = nb" "0 \<le> nb" "c_bins c = Some m0"
      "c_my_bin c = bin_at cs (int i)" "bin_at cs (int i) < nb"
    and sm: "nb < 268435456"
    and small: "length cs \<le> 1073741824"
    and more: "2 ^ k < length cs"
    and g: "group_rank (c_in c) = int i" "group_size (c_in c) = int (length cs)"
    and i: "i < length cs"
    and nonnull: "\<And>j. rank_at cs j \<noteq> MPI_PROC_NULL"
    and inv: "scan_inv cs nb k i s"
    and A: "right_going cs nb k (nbr (length cs) i (- (2 ^ k))) A"
    and B: "left_going cs nb k (nbr (length cs) i (2 ^ k)) B"
  shows "\<exists>s'. split_complete c s (Some A) (Some B) = Inr s' \<and> scan_inv cs nb (Suc k) i s'"
proof -
  define d :: int where "d = 2 ^ k"
  define n where "n = length cs"
  define mb where "mb = bin_at cs (int i)"
  define m where "m = store_msg (recv_right_bins nb) (Some B)
                        (store_msg (recv_left_bins nb) (Some A) (sb_mem s))"
  define m3 where "m3 = merge_from_left nb (int i) d 0 m"
  define m4 where "m4 = merge_from_right nb (int i) (int n) d 0 m3"
  define ql where "ql = nbr n i (- d)"
  define qr where "qr = nbr n i d"
  have n0: "0 < n" using i by (auto simp: n_def)
  have dpos: "0 < d" by (simp add: d_def)
  have "int (2 ^ k) < int (length cs)"
    using more by (simp only: of_nat_less_iff)
  then have dn_lt: "d < int n" by (simp add: d_def n_def)
  have nsm: "int n \<le> 1073741824" using small by (simp add: n_def)
  have ipos: "0 \<le> int i" and ilt: "int i < int n" using i by (simp_all add: n_def)
  have w_sub: "int32 (int i - d) = int i - d"
    using ipos ilt dpos dn_lt nsm by (intro int32_id) linarith+
  have w_add: "int32 (int i + d) = int i + d"
    using ipos ilt dpos dn_lt nsm by (intro int32_id) linarith+
  have w_dist: "int32 (2 * d) = 2 * d"
    using dpos dn_lt nsm by (intro int32_id) linarith+
  have cnt_exact: "int32 (count_bin cs b lo hi) = count_bin cs b lo hi"
    if "0 \<le> lo" "hi < int n" for b lo hi
    using count_bin_window [of lo hi "int n" cs b] that nsm by (intro int32_id) linarith+
  have lenA: "int (length A) = elements nb" and lenB: "int (length B) = elements nb"
    using A B c(2) sm by (simp_all add: right_going_def left_going_def block_defs)
  have int_ql: "int ql = (int i - d) mod int n" and int_qr: "int qr = (int i + d) mod int n"
    using n0 by (simp_all add: ql_def qr_def int_nbr)
  have A_rank: "A ! nat (rank_index nb) = rank_at cs (int ql - d)"
    and A_cell: "\<And>b. 0 \<le> b \<Longrightarrow> b < nb \<Longrightarrow>
        A ! nat (my_bin_index b + INDEX_COUNT) = count_bin cs b (max 0 (int ql - d + 1)) (int ql) \<and>
        A ! nat (my_bin_index b + INDEX_CLOSEST) = nearest cs b (- 1) (int ql) (2 ^ k)"
    using A unfolding right_going_def ql_def d_def n_def by blast+
  have B_rank: "B ! nat (rank_index nb) = rank_at cs (int qr + d)"
    and B_cell: "\<And>b. 0 \<le> b \<Longrightarrow> b < nb \<Longrightarrow>
        B ! nat (my_bin_index b + INDEX_COUNT)
          = count_bin cs b (int qr) (min (int n - 1) (int qr + d - 1)) \<and>
        B ! nat (my_bin_index b + INDEX_CLOSEST) = nearest cs b 1 (int qr) (2 ^ k)"
    using B unfolding left_going_def qr_def d_def n_def by blast+
  \<comment> \<open>the memory after the two receives\<close>
  have m_RL: "m (recv_left_bins nb + j) = A ! nat j" if "0 \<le> j" "j < elements nb" for j
  proof -
    have "m (recv_left_bins nb + j) = store_msg (recv_left_bins nb) (Some A) (sb_mem s) (recv_left_bins nb + j)"
      unfolding m_def using that c(2) sm by (intro store_msg_outside) (simp add: block_defs)
    also have "\<dots> = A ! nat j"
      using that lenA by (intro store_msg_inside) simp_all
    finally show ?thesis .
  qed
  have m_RR: "m (recv_right_bins nb + j) = B ! nat j" if "0 \<le> j" "j < elements nb" for j
    unfolding m_def using that lenB by (intro store_msg_inside) simp_all
  have m_S: "m a = sb_mem s a"
    if "a < recv_left_bins nb \<or> (send_right_bins nb \<le> a \<and> a < recv_right_bins nb)" for a
  proof -
    have "m a = store_msg (recv_left_bins nb) (Some A) (sb_mem s) a"
      unfolding m_def using that lenB c(2) sm by (intro store_msg_outside) (auto simp: block_defs)
    also have "\<dots> = sb_mem s a"
      using that lenA c(2) sm by (intro store_msg_outside) (auto simp: block_defs)
    finally show ?thesis .
  qed
  have m3_other: "m3 a = m a" if "a < send_right_bins nb \<or> send_right_bins nb + rank_index nb \<le> a" for a
    unfolding m3_def using c(2) sm that by (rule merge_left_other)
  have m4_other: "m4 a = m3 a" if "send_left_bins nb + rank_index nb \<le> a" for a
    unfolding m4_def using that c(2) sm by (intro merge_right_other) simp_all
  \<comment> \<open>the result of the round\<close>
  have fits: "msg_fits nb (Some A)" "msg_fits nb (Some B)"
    using lenA lenB by (simp_all add: msg_fits_def)
  have inb: "in_block nb (c_bins c) (recv_left_bins nb + (my_bin_index mb + INDEX_CLOSEST))"
      "in_block nb (c_bins c) (recv_right_bins nb + (my_bin_index mb + INDEX_CLOSEST))"
    if "0 \<le> mb"
    using that c sm by (simp_all add: mb_def block_defs)
  define s' where "s' = \<lparr>sb_mem = m4,
      sb_left_rank = m4 (recv_left_bins nb + rank_index nb),
      sb_right_rank = m4 (recv_right_bins nb + rank_index nb),
      sb_my_left = (if sb_my_left s = MPI_PROC_NULL \<and> mb \<ge> 0
                    then m (recv_left_bins nb + (my_bin_index mb + INDEX_CLOSEST))
                    else sb_my_left s),
      sb_my_right = (if sb_my_right s = MPI_PROC_NULL \<and> mb \<ge> 0
                     then m (recv_right_bins nb + (my_bin_index mb + INDEX_CLOSEST))
                     else sb_my_right s),
      sb_dist = int32 (2 * sb_dist s),
      sb_waits = Suc (sb_waits s)\<rparr>"
  have dist: "sb_dist s = d" and waits: "sb_waits s = k"
    using inv by (simp_all add: scan_inv_def d_def)
  have res: "split_complete c s (Some A) (Some B) = Inr s'"
    unfolding split_complete_def Let_def
    using fits inb
    by (simp add: c g s'_def m_def m3_def m4_def mb_def [symmetric] n_def dist)
  \<comment> \<open>the new neighbours\<close>
  have left: "sb_left_rank s' = rank_at cs (int i - 2 ^ Suc k)"
  proof -
    have "sb_left_rank s' = m3 (recv_left_bins nb + rank_index nb)"
      unfolding s'_def using c(2) sm by (simp add: m4_other block_defs)
    also have "\<dots> = m (recv_left_bins nb + rank_index nb)"
      using c(2) sm by (intro m3_other) (simp add: block_defs)
    also have "\<dots> = A ! nat (rank_index nb)"
      using layout_rank [OF c(2) sm] by (intro m_RL) simp_all
    also have "\<dots> = rank_at cs (int ql - d)"
      by (rule A_rank)
    also have "\<dots> = rank_at cs (int i - 2 ^ Suc k)"
    proof -
      have "((int i - d) mod int n - d) mod int n = (int i - d - d) mod int n"
        by (rule mod_diff_left_eq)
      also have "int i - d - d = int i - 2 ^ Suc k"
        by (simp add: d_def)
      finally show ?thesis
        unfolding rank_at_def int_ql n_def [symmetric] by simp
    qed
    finally show ?thesis .
  qed
  have right: "sb_right_rank s' = rank_at cs (int i + 2 ^ Suc k)"
  proof -
    have "sb_right_rank s' = m3 (recv_right_bins nb + rank_index nb)"
      unfolding s'_def using c(2) sm by (simp add: m4_other block_defs)
    also have "\<dots> = m (recv_right_bins nb + rank_index nb)"
      using c(2) sm by (intro m3_other) (simp add: block_defs)
    also have "\<dots> = B ! nat (rank_index nb)"
      using layout_rank [OF c(2) sm] by (intro m_RR) simp_all
    also have "\<dots> = rank_at cs (int qr + d)"
      by (rule B_rank)
    also have "\<dots> = rank_at cs (int i + 2 ^ Suc k)"
    proof -
      have "((int i + d) mod int n + d) mod int n = (int i + d + d) mod int n"
        by (rule mod_add_left_eq)
      also have "int i + d + d = int i + 2 ^ Suc k"
        by (simp add: d_def)
      finally show ?thesis
        unfolding rank_at_def int_qr n_def [symmetric] by simp
    qed
    finally show ?thesis .
  qed
  \<comment> \<open>what the two messages say, seen from position \<open>i\<close>\<close>
  have pw: "(2::nat) ^ Suc k = 2 ^ k + 2 ^ k" "(2::nat) ^ Suc k - 1 = (2 ^ k - 1) + 2 ^ k"
    by simp_all
  have dn: "int (2 ^ k) = d" "int (2 ^ k - 1) = d - 1"
    by (simp_all add: d_def of_nat_diff)
  have A_closest: "A ! nat (my_bin_index b + INDEX_CLOSEST) = nearest cs b (- 1) (int i - d) (2 ^ k)"
    if "0 \<le> b" "b < nb" for b
  proof -
    have "A ! nat (my_bin_index b + INDEX_CLOSEST) = nearest cs b (- 1) (int ql) (2 ^ k)"
      using A_cell that by simp
    also have "\<dots> = nearest cs b (- 1) (int i - d) (2 ^ k)"
      unfolding int_ql n_def by (rule nearest_mod)
    finally show ?thesis .
  qed
  have B_closest: "B ! nat (my_bin_index b + INDEX_CLOSEST) = nearest cs b 1 (int i + d) (2 ^ k)"
    if "0 \<le> b" "b < nb" for b
  proof -
    have "B ! nat (my_bin_index b + INDEX_CLOSEST) = nearest cs b 1 (int qr) (2 ^ k)"
      using B_cell that by simp
    also have "\<dots> = nearest cs b 1 (int i + d) (2 ^ k)"
      unfolding int_qr n_def by (rule nearest_mod)
    finally show ?thesis .
  qed
  have A_count: "A ! nat (my_bin_index b + INDEX_COUNT)
      = count_bin cs b (max 0 (int i - d - d + 1)) (int i - d)"
    if "0 \<le> b" "b < nb" "0 \<le> int i - d" for b
  proof -
    have e: "int ql = int i - d"
      unfolding int_ql using that(3) i dpos by (simp add: n_def)
    from A_cell [OF that(1,2)] show ?thesis
      unfolding e by simp
  qed
  have B_count: "B ! nat (my_bin_index b + INDEX_COUNT)
      = count_bin cs b (int i + d) (min (int n - 1) (int i + d + d - 1))"
    if "0 \<le> b" "b < nb" "int i + d < int n" for b
  proof -
    have e: "int qr = int i + d"
      unfolding int_qr using that(3) dpos by simp
    from B_cell [OF that(1,2)] show ?thesis
      unfolding e by simp
  qed
  \<comment> \<open>the snapshots\<close>
  have my_left: "sb_my_left s' = (if 0 \<le> mb then nearest cs mb (- 1) (int i - 1) (2 ^ Suc k - 1)
                                  else MPI_PROC_NULL)"
  proof (cases "0 \<le> mb")
    case True
    have old: "sb_my_left s = nearest cs mb (- 1) (int i - 1) (2 ^ k - 1)"
      using inv True by (simp add: scan_inv_def mb_def)
    have new: "m (recv_left_bins nb + (my_bin_index mb + INDEX_CLOSEST))
        = nearest cs mb (- 1) (int i - d) (2 ^ k)"
      using layout [OF c(2) sm True] c(5) A_closest [OF True]
      by (subst m_RL) (simp_all add: mb_def)
    have "nearest cs mb (- 1) (int i - 1) (2 ^ Suc k - 1)
        = (if nearest cs mb (- 1) (int i - 1) (2 ^ k - 1) = MPI_PROC_NULL
           then nearest cs mb (- 1) (int i - 1 + - 1 * int (2 ^ k - 1)) (2 ^ k)
           else nearest cs mb (- 1) (int i - 1) (2 ^ k - 1))"
      unfolding pw(2) using nonnull by (rule nearest_add)
    then show ?thesis
      using True by (simp add: s'_def old new dn d_def del: power_Suc)
  next
    case False
    then show ?thesis
      using inv by (simp add: s'_def scan_inv_def mb_def)
  qed
  have my_right: "sb_my_right s' = (if 0 \<le> mb then nearest cs mb 1 (int i + 1) (2 ^ Suc k - 1)
                                    else MPI_PROC_NULL)"
  proof (cases "0 \<le> mb")
    case True
    have old: "sb_my_right s = nearest cs mb 1 (int i + 1) (2 ^ k - 1)"
      using inv True by (simp add: scan_inv_def mb_def)
    have new: "m (recv_right_bins nb + (my_bin_index mb + INDEX_CLOSEST))
        = nearest cs mb 1 (int i + d) (2 ^ k)"
      using layout [OF c(2) sm True] c(5) B_closest [OF True]
      by (subst m_RR) (simp_all add: mb_def)
    have "nearest cs mb 1 (int i + 1) (2 ^ Suc k - 1)
        = (if nearest cs mb 1 (int i + 1) (2 ^ k - 1) = MPI_PROC_NULL
           then nearest cs mb 1 (int i + 1 + 1 * int (2 ^ k - 1)) (2 ^ k)
           else nearest cs mb 1 (int i + 1) (2 ^ k - 1))"
      unfolding pw(2) using nonnull by (rule nearest_add)
    then show ?thesis
      using True by (simp add: s'_def old new dn d_def del: power_Suc)
  next
    case False
    then show ?thesis
      using inv by (simp add: s'_def scan_inv_def mb_def)
  qed
  \<comment> \<open>the cells of the two send buffers\<close>
  have old_cells:
    "sb_mem s (send_right_bins nb + (my_bin_index b + INDEX_COUNT))
       = count_bin cs b (max 0 (int i - d + 1)) (int i)"
    "sb_mem s (send_right_bins nb + (my_bin_index b + INDEX_CLOSEST)) = nearest cs b (- 1) (int i) (2 ^ k)"
    "sb_mem s (send_left_bins nb + (my_bin_index b + INDEX_COUNT))
       = count_bin cs b (int i) (min (int n - 1) (int i + d - 1))"
    "sb_mem s (send_left_bins nb + (my_bin_index b + INDEX_CLOSEST)) = nearest cs b 1 (int i) (2 ^ k)"
    if "0 \<le> b" "b < nb" for b
    using inv that unfolding scan_inv_def d_def n_def by blast+
  have right_count: "m4 (send_right_bins nb + (my_bin_index b + INDEX_COUNT))
       = count_bin cs b (max 0 (int i - 2 ^ Suc k + 1)) (int i)"
    if b: "0 \<le> b" "b < nb" for b
  proof -
    note lay = layout [OF c(2) sm b]
    have "m4 (send_right_bins nb + (my_bin_index b + INDEX_COUNT))
        = m3 (send_right_bins nb + (my_bin_index b + INDEX_COUNT))"
      using lay c(2) sm by (intro m4_other) (simp add: block_defs)
    also have "\<dots> = (if int32 (int i - d) \<ge> 0
         then int32 (m (send_right_bins nb + (my_bin_index b + INDEX_COUNT))
              + m (recv_left_bins nb + (my_bin_index b + INDEX_COUNT)))
         else m (send_right_bins nb + (my_bin_index b + INDEX_COUNT)))"
      unfolding m3_def using b sm by (rule merge_left_count)
    finally have eq0: "m4 (send_right_bins nb + (my_bin_index b + INDEX_COUNT))
        = (if int32 (int i - d) \<ge> 0
         then int32 (m (send_right_bins nb + (my_bin_index b + INDEX_COUNT))
              + m (recv_left_bins nb + (my_bin_index b + INDEX_COUNT)))
         else m (send_right_bins nb + (my_bin_index b + INDEX_COUNT)))" .
    have sv: "m (send_right_bins nb + (my_bin_index b + INDEX_COUNT))
        = count_bin cs b (max 0 (int i - d + 1)) (int i)"
    proof -
      have "m (send_right_bins nb + (my_bin_index b + INDEX_COUNT))
          = sb_mem s (send_right_bins nb + (my_bin_index b + INDEX_COUNT))"
        using lay c(2) sm by (intro m_S) (simp add: block_defs)
      then show ?thesis by (simp only: old_cells [OF b])
    qed
    have rv: "m (recv_left_bins nb + (my_bin_index b + INDEX_COUNT))
        = A ! nat (my_bin_index b + INDEX_COUNT)"
      using lay by (intro m_RL)
    have eq: "m4 (send_right_bins nb + (my_bin_index b + INDEX_COUNT))
        = (if int i - d \<ge> 0
           then int32 (count_bin cs b (max 0 (int i - d + 1)) (int i)
                       + A ! nat (my_bin_index b + INDEX_COUNT))
           else count_bin cs b (max 0 (int i - d + 1)) (int i))"
      using eq0 unfolding w_sub sv rv .
    have ex: "int32 (count_bin cs b (max 0 (int i - d - d + 1)) (int i))
        = count_bin cs b (max 0 (int i - d - d + 1)) (int i)"
      using ilt by (intro cnt_exact) simp_all
    have tw: "int i - 2 ^ Suc k + 1 = int i - d - d + 1"
      by (simp add: d_def)
    show ?thesis
    proof (cases "int i - d \<ge> 0")
      case True
      have "count_bin cs b (max 0 (int i - d - d + 1)) (int i - d) + count_bin cs b (int i - d + 1) (int i)
          = count_bin cs b (max 0 (int i - d - d + 1)) (int i)"
        using True dpos by (intro count_bin_split) simp_all
      moreover have "max 0 (int i - d + 1) = int i - d + 1"
        using True by simp
      ultimately have sum: "count_bin cs b (max 0 (int i - d + 1)) (int i)
            + A ! nat (my_bin_index b + INDEX_COUNT)
          = count_bin cs b (max 0 (int i - d - d + 1)) (int i)"
        using True A_count [OF b True] by simp
      show ?thesis
        unfolding eq tw sum ex using True by simp
    next
      case False
      then have "max 0 (int i - d + 1) = 0" "max 0 (int i - d - d + 1) = 0"
        using dpos by simp_all
      then show ?thesis
        unfolding eq tw using False by simp
    qed
  qed
  have left_count: "m4 (send_left_bins nb + (my_bin_index b + INDEX_COUNT))
       = count_bin cs b (int i) (min (int n - 1) (int i + 2 ^ Suc k - 1))"
    if b: "0 \<le> b" "b < nb" for b
  proof -
    note lay = layout [OF c(2) sm b]
    have eq0: "m4 (send_left_bins nb + (my_bin_index b + INDEX_COUNT))
        = (if int32 (int i + d) < int n
         then int32 (m3 (send_left_bins nb + (my_bin_index b + INDEX_COUNT))
              + m3 (recv_right_bins nb + (my_bin_index b + INDEX_COUNT)))
         else m3 (send_left_bins nb + (my_bin_index b + INDEX_COUNT)))"
      unfolding m4_def using b sm by (rule merge_right_count)
    have "m3 (send_left_bins nb + (my_bin_index b + INDEX_COUNT))
        = m (send_left_bins nb + (my_bin_index b + INDEX_COUNT))"
      using lay c(2) sm by (intro m3_other) (simp add: block_defs)
    also have "\<dots> = sb_mem s (send_left_bins nb + (my_bin_index b + INDEX_COUNT))"
      using lay c(2) sm by (intro m_S) (simp add: block_defs)
    also have "\<dots> = count_bin cs b (int i) (min (int n - 1) (int i + d - 1))"
      by (simp only: old_cells [OF b])
    finally have sv: "m3 (send_left_bins nb + (my_bin_index b + INDEX_COUNT))
        = count_bin cs b (int i) (min (int n - 1) (int i + d - 1))" .
    have "m3 (recv_right_bins nb + (my_bin_index b + INDEX_COUNT))
        = m (recv_right_bins nb + (my_bin_index b + INDEX_COUNT))"
      using lay c(2) sm by (intro m3_other) (simp add: block_defs)
    also have "\<dots> = B ! nat (my_bin_index b + INDEX_COUNT)"
      using lay by (intro m_RR)
    finally have rv: "m3 (recv_right_bins nb + (my_bin_index b + INDEX_COUNT))
        = B ! nat (my_bin_index b + INDEX_COUNT)" .
    have eq: "m4 (send_left_bins nb + (my_bin_index b + INDEX_COUNT))
        = (if int i + d < int n
           then int32 (count_bin cs b (int i) (min (int n - 1) (int i + d - 1))
                + B ! nat (my_bin_index b + INDEX_COUNT))
           else count_bin cs b (int i) (min (int n - 1) (int i + d - 1)))"
      using eq0 unfolding w_add sv rv .
    have ex: "int32 (count_bin cs b (int i) (min (int n - 1) (int i + d + d - 1)))
        = count_bin cs b (int i) (min (int n - 1) (int i + d + d - 1))"
      using ipos by (intro cnt_exact) simp_all
    have tw: "int i + 2 ^ Suc k - 1 = int i + d + d - 1"
      by (simp add: d_def)
    show ?thesis
    proof (cases "int i + d < int n")
      case True
      have "count_bin cs b (int i) (int i + d - 1)
            + count_bin cs b (int i + d - 1 + 1) (min (int n - 1) (int i + d + d - 1))
          = count_bin cs b (int i) (min (int n - 1) (int i + d + d - 1))"
        using True dpos by (intro count_bin_split) simp_all
      moreover have "min (int n - 1) (int i + d - 1) = int i + d - 1"
        using True by simp
      ultimately have sum: "count_bin cs b (int i) (min (int n - 1) (int i + d - 1))
            + B ! nat (my_bin_index b + INDEX_COUNT)
          = count_bin cs b (int i) (min (int n - 1) (int i + d + d - 1))"
        using True B_count [OF b True] by simp
      show ?thesis
        unfolding eq tw sum ex using True by simp
    next
      case False
      then have "min (int n - 1) (int i + d - 1) = int n - 1"
        "min (int n - 1) (int i + d + d - 1) = int n - 1"
        using dpos by simp_all
      then show ?thesis
        unfolding eq tw using False by simp
    qed
  qed
  have right_closest: "m4 (send_right_bins nb + (my_bin_index b + INDEX_CLOSEST))
       = nearest cs b (- 1) (int i) (2 ^ Suc k)"
    if b: "0 \<le> b" "b < nb" for b
  proof -
    note lay = layout [OF c(2) sm b]
    have "m4 (send_right_bins nb + (my_bin_index b + INDEX_CLOSEST))
        = m3 (send_right_bins nb + (my_bin_index b + INDEX_CLOSEST))"
      using lay c(2) sm by (intro m4_other) (simp add: block_defs)
    also have "\<dots> = (if m (send_right_bins nb + (my_bin_index b + INDEX_CLOSEST)) = MPI_PROC_NULL
         then m (recv_left_bins nb + (my_bin_index b + INDEX_CLOSEST))
         else m (send_right_bins nb + (my_bin_index b + INDEX_CLOSEST)))"
      unfolding m3_def using b sm by (rule merge_left_closest)
    also have "m (send_right_bins nb + (my_bin_index b + INDEX_CLOSEST))
        = nearest cs b (- 1) (int i) (2 ^ k)"
    proof -
      have "m (send_right_bins nb + (my_bin_index b + INDEX_CLOSEST))
          = sb_mem s (send_right_bins nb + (my_bin_index b + INDEX_CLOSEST))"
        using lay c(2) sm by (intro m_S) (simp add: block_defs)
      then show ?thesis by (simp only: old_cells [OF b])
    qed
    also have "m (recv_left_bins nb + (my_bin_index b + INDEX_CLOSEST))
        = nearest cs b (- 1) (int i - d) (2 ^ k)"
      using lay A_closest [OF b] by (subst m_RL) simp_all
    also have "(if nearest cs b (- 1) (int i) (2 ^ k) = MPI_PROC_NULL
         then nearest cs b (- 1) (int i - d) (2 ^ k)
         else nearest cs b (- 1) (int i) (2 ^ k)) = nearest cs b (- 1) (int i) (2 ^ k + 2 ^ k)"
      using nearest_add [of cs b "- 1" "int i" "2 ^ k" "2 ^ k", OF nonnull]
      by (simp add: d_def)
    finally show ?thesis by (simp only: pw(1))
  qed
  have left_closest: "m4 (send_left_bins nb + (my_bin_index b + INDEX_CLOSEST))
       = nearest cs b 1 (int i) (2 ^ Suc k)"
    if b: "0 \<le> b" "b < nb" for b
  proof -
    note lay = layout [OF c(2) sm b]
    have "m4 (send_left_bins nb + (my_bin_index b + INDEX_CLOSEST))
        = (if m3 (send_left_bins nb + (my_bin_index b + INDEX_CLOSEST)) = MPI_PROC_NULL
         then m3 (recv_right_bins nb + (my_bin_index b + INDEX_CLOSEST))
         else m3 (send_left_bins nb + (my_bin_index b + INDEX_CLOSEST)))"
      unfolding m4_def using b sm by (rule merge_right_closest)
    also have "m3 (send_left_bins nb + (my_bin_index b + INDEX_CLOSEST))
        = m (send_left_bins nb + (my_bin_index b + INDEX_CLOSEST))"
      using lay c(2) sm by (intro m3_other) (simp add: block_defs)
    also have "m (send_left_bins nb + (my_bin_index b + INDEX_CLOSEST))
        = nearest cs b 1 (int i) (2 ^ k)"
    proof -
      have "m (send_left_bins nb + (my_bin_index b + INDEX_CLOSEST))
          = sb_mem s (send_left_bins nb + (my_bin_index b + INDEX_CLOSEST))"
        using lay c(2) sm by (intro m_S) (simp add: block_defs)
      then show ?thesis by (simp only: old_cells [OF b])
    qed
    also have "m3 (recv_right_bins nb + (my_bin_index b + INDEX_CLOSEST))
        = m (recv_right_bins nb + (my_bin_index b + INDEX_CLOSEST))"
      using lay c(2) sm by (intro m3_other) (simp add: block_defs)
    also have "m (recv_right_bins nb + (my_bin_index b + INDEX_CLOSEST))
        = nearest cs b 1 (int i + d) (2 ^ k)"
      using lay B_closest [OF b] by (subst m_RR) simp_all
    also have "(if nearest cs b 1 (int i) (2 ^ k) = MPI_PROC_NULL
         then nearest cs b 1 (int i + d) (2 ^ k)
         else nearest cs b 1 (int i) (2 ^ k)) = nearest cs b 1 (int i) (2 ^ k + 2 ^ k)"
      using nearest_add [of cs b 1 "int i" "2 ^ k" "2 ^ k", OF nonnull]
      by (simp add: d_def)
    finally show ?thesis by (simp only: pw(1))
  qed
  have "scan_inv cs nb (Suc k) i s'"
    unfolding scan_inv_def
  proof (intro conjI allI impI)
    show "sb_dist s' = 2 ^ Suc k" using w_dist by (simp add: s'_def dist d_def)
    show "sb_waits s' = Suc k" by (simp add: s'_def waits)
    show "sb_left_rank s' = rank_at cs (int i - 2 ^ Suc k)" by (rule left)
    show "sb_right_rank s' = rank_at cs (int i + 2 ^ Suc k)" by (rule right)
    show "sb_my_left s' = (if 0 \<le> bin_at cs (int i)
                     then nearest cs (bin_at cs (int i)) (- 1) (int i - 1) (2 ^ Suc k - 1)
                     else MPI_PROC_NULL)"
      using my_left by (simp only: mb_def)
    show "sb_my_right s' = (if 0 \<le> bin_at cs (int i)
                      then nearest cs (bin_at cs (int i)) 1 (int i + 1) (2 ^ Suc k - 1)
                      else MPI_PROC_NULL)"
      using my_right by (simp only: mb_def)
  next
    fix b assume b: "0 \<le> b \<and> b < nb"
    have mem: "sb_mem s' = m4" by (simp add: s'_def)
    show "sb_mem s' (send_right_bins nb + (my_bin_index b + INDEX_COUNT))
          = count_bin cs b (max 0 (int i - 2 ^ Suc k + 1)) (int i)"
      unfolding mem using b by (intro right_count) simp_all
    show "sb_mem s' (send_right_bins nb + (my_bin_index b + INDEX_CLOSEST))
          = nearest cs b (- 1) (int i) (2 ^ Suc k)"
      unfolding mem using b by (intro right_closest) simp_all
    show "sb_mem s' (send_left_bins nb + (my_bin_index b + INDEX_COUNT))
          = count_bin cs b (int i) (min (int (length cs) - 1) (int i + 2 ^ Suc k - 1))"
      unfolding mem n_def [symmetric] using b by (intro left_count) simp_all
    show "sb_mem s' (send_left_bins nb + (my_bin_index b + INDEX_CLOSEST))
          = nearest cs b 1 (int i) (2 ^ Suc k)"
      unfolding mem using b by (intro left_closest) simp_all
  qed
  with res show ?thesis by blast
qed

section \<open>A group that is ready to split\<close>

lemma collect_map_Inr: "collect (map Inr ys) = Inr ys"
  by (induction ys) simp_all

lemma collect_Inr_D: "collect xs = Inr ys \<Longrightarrow> xs = map Inr ys"
  by (induction xs arbitrary: ys) (auto split: sum.splits)

lemma collect_Inr_iff: "collect xs = Inr ys \<longleftrightarrow> xs = map Inr ys"
  using collect_Inr_D collect_map_Inr by blast

lemma collect_nth:
  assumes "\<And>i. i < length xs \<Longrightarrow> xs ! i = Inr (f i)"
  shows "collect xs = Inr (map f [0..<length xs])"
  unfolding collect_Inr_iff using assms by (intro nth_equalityI) simp_all

lemma ring_linked_nth:
  assumes "ring_linked gs" "i < length gs"
  shows "0 \<le> comm_rank (gs ! i)" "group_rank (gs ! i) = int i" "group_size (gs ! i) = int (length gs)"
    "comm_left (gs ! i) = comm_rank (gs ! nat ((int i - 1) mod int (length gs)))"
    "comm_right (gs ! i) = comm_rank (gs ! nat ((int i + 1) mod int (length gs)))"
  using assms unfolding ring_linked_def list_all_iff by simp_all

lemma split_ready_facts:
  assumes "split_ready nb cs" "i < length cs"
  shows "c_num_bins (cs ! i) = nb" "c_my_bin (cs ! i) < nb" "\<exists>m. c_bins (cs ! i) = Some m"
    "comm_rank (c_in (cs ! i)) = rank_at cs (int i)"
    "comm_left (c_in (cs ! i)) = rank_at cs (int i - 1)"
    "comm_right (c_in (cs ! i)) = rank_at cs (int i + 1)"
    "group_rank (c_in (cs ! i)) = int i"
    "group_size (c_in (cs ! i)) = int (length cs)"
proof -
  have mem: "cs ! i \<in> set cs" using assms(2) by simp
  have all: "c_num_bins (cs ! i) = nb \<and> c_my_bin (cs ! i) < nb \<and>
      (case c_bins (cs ! i) of None \<Rightarrow> False | Some m \<Rightarrow> True)"
    using assms(1) mem unfolding split_ready_def list_all_iff by blast
  show "c_num_bins (cs ! i) = nb" "c_my_bin (cs ! i) < nb" "\<exists>m. c_bins (cs ! i) = Some m"
    using all by (auto split: option.splits)
  have ring: "ring_linked (map c_in cs)" and i': "i < length (map c_in cs)"
    using assms by (simp_all add: split_ready_def)
  have n: "0 < length cs" using assms(2) by auto
  have lt: "nat (j mod int (length cs)) < length cs" for j
    using n by (simp add: nat_less_iff)
  show "comm_rank (c_in (cs ! i)) = rank_at cs (int i)"
    using assms(2) by (simp add: rank_at_def)
  show "comm_left (c_in (cs ! i)) = rank_at cs (int i - 1)"
    using ring_linked_nth(4) [OF ring i'] assms(2) lt [of "int i - 1"] by (simp add: rank_at_def)
  show "comm_right (c_in (cs ! i)) = rank_at cs (int i + 1)"
    using ring_linked_nth(5) [OF ring i'] assms(2) lt [of "int i + 1"] by (simp add: rank_at_def)
  show "group_rank (c_in (cs ! i)) = int i" "group_size (c_in (cs ! i)) = int (length cs)"
    using ring_linked_nth(2,3) [OF ring i'] assms(2) by simp_all
qed

lemma split_ready_basic:
  assumes "split_ready nb cs"
  shows "0 \<le> nb" "0 < length cs" "distinct (map (\<lambda>c. comm_rank (c_in c)) cs)"
    "rank_at cs j \<noteq> MPI_PROC_NULL" "nb < 268435456" "length cs \<le> 1073741824"
proof -
  show "nb < 268435456" "length cs \<le> 1073741824"
    using assms by (simp_all add: split_ready_def)
  show "0 \<le> nb" "0 < length cs" "distinct (map (\<lambda>c. comm_rank (c_in c)) cs)"
    using assms by (auto simp: split_ready_def ring_linked_def comp_def)
  then have lt: "nat (j mod int (length cs)) < length cs"
    by (simp add: nat_less_iff)
  have "ring_linked (map c_in cs)" using assms by (simp add: split_ready_def)
  from ring_linked_nth(1) [OF this, of "nat (j mod int (length cs))"] lt
  have "0 \<le> rank_at cs j" by (simp add: rank_at_def)
  then show "rank_at cs j \<noteq> MPI_PROC_NULL"
    using MPI_PROC_NULL_negative by simp
qed

lemma split_begin_inv:
  assumes "split_ready nb cs" "i < length cs"
  shows "\<exists>s. split_begin (cs ! i) = Inr s \<and> scan_inv cs nb 0 i s"
proof -
  note f = split_ready_facts [OF assms]
  note b = split_ready_basic [OF assms(1)]
  from f(3) obtain m0 where m0: "c_bins (cs ! i) = Some m0" by blast
  define s where "s = \<lparr>sb_mem = seed_bins nb (c_my_bin (cs ! i)) (comm_rank (c_in (cs ! i)))
                          (init_bins nb 0 m0),
                sb_left_rank = comm_left (c_in (cs ! i)),
                sb_right_rank = comm_right (c_in (cs ! i)),
                sb_my_left = MPI_PROC_NULL,
                sb_my_right = MPI_PROC_NULL,
                sb_dist = 1,
                sb_waits = 0\<rparr>"
  have "split_begin (cs ! i) = Inr s"
    using f(2) b(1,5) by (simp add: split_begin_def Let_def f(1) m0 s_def block_defs)
  moreover have "scan_inv cs nb 0 i s"
    unfolding scan_inv_def
    using f(2) b(1,5) assms(2)
    by (simp add: s_def f init_seed_cells count_bin_single bin_at_nth rank_at_nth [symmetric])
  ultimately show ?thesis by blast
qed

section \<open>One round of the whole group\<close>

lemma rank_at_nbr:
  "0 < length cs \<Longrightarrow> rank_at cs (int (nbr (length cs) i d)) = rank_at cs (int i + d)"
  by (simp add: int_nbr rank_at_mod)

lemma split_round_inv:
  assumes ready: "split_ready nb cs"
    and inv: "scan_inv_all cs nb k ss"
    and more: "2 ^ k < length cs"
  shows "\<exists>ss'. split_round cs ss = Inr ss' \<and> scan_inv_all cs nb (Suc k) ss'"
proof -
  define n where "n = length cs"
  define d :: int where "d = 2 ^ k"
  note b = split_ready_basic [OF ready]
  have len: "length ss = n" and n0: "0 < n"
    using inv b(2) by (simp_all add: scan_inv_all_def n_def)
  have invi: "scan_inv cs nb k i (ss ! i)" if "i < n" for i
    using inv that by (simp add: scan_inv_all_def n_def)
  have left_i: "sb_left_rank (ss ! i) = rank_at cs (int i - d)"
    and right_i: "sb_right_rank (ss ! i) = rank_at cs (int i + d)"
    and dist_i: "sb_dist (ss ! i) = d" if "i < n" for i
    using invi [OF that] by (simp_all add: scan_inv_def d_def)
  have lt: "nbr n i e < n" for i e
    using n0 by (rule nbr_less)
  \<comment> \<open>what every member posts\<close>
  define post where "post i =
     (posted_state nb (ss ! i),
      (rank_at cs (int i),
       [(rank_at cs (int i + d), to_right_of nb (ss ! i)),
        (rank_at cs (int i - d), to_left_of nb (ss ! i))],
       [rank_at cs (int i - d), rank_at cs (int i + d)]))" for i
  define sp where "sp = map post [0..<n]"
  have "int (2 ^ k) < int (length cs)"
    using more by (simp only: of_nat_less_iff)
  then have dn: "d < int n"
    by (simp add: d_def n_def)
  have active: "split_active (cs ! i) (ss ! i)" if "i < n" for i
    using that dn split_ready_facts(8) [OF ready, of i] dist_i [OF that]
    by (simp add: split_active_def n_def)
  have post_i: "split_post (cs ! i) (ss ! i) = Inr (post i)" if "i < n" for i
  proof -
    note f = split_ready_facts [OF ready, of i, unfolded n_def [symmetric], OF that]
    from f(3) obtain m0 where "c_bins (cs ! i) = Some m0" by blast
    from split_post_eq [OF f(1) b(1,5) this, of "ss ! i"] show ?thesis
      by (simp add: post_def left_i [OF that] right_i [OF that] f(4))
  qed
  have posts: "split_posts cs ss = Inr sp"
    unfolding split_posts_def collect_Inr_iff sp_def
    using len active post_i
    by (intro nth_equalityI) (simp_all add: n_def)
  \<comment> \<open>the exchange\<close>
  define ps where "ps = map snd sp"
  have ps_i: "ps ! i = snd (post i)" if "i < n" for i
    using that by (simp add: ps_def sp_def)
  have ps_len: "length ps = n" by (simp add: ps_def sp_def)
  have fst_ps: "fst (ps ! i) = rank_at cs (int i)" if "i < n" for i
    using that by (simp add: ps_i post_def)
  have "map fst ps = map (\<lambda>c. comm_rank (c_in c)) cs"
    using ps_len fst_ps by (intro nth_equalityI) (simp_all add: n_def rank_at_nth)
  then have ps_dist: "distinct (map fst ps)"
    using b(3) by simp
  have ps_nonnull: "\<forall>i<n. fst (ps ! i) \<noteq> MPI_PROC_NULL"
    using fst_ps b(4) by simp
  have ps_shape: "\<forall>i<n. snd (ps ! i) =
        (map (Pair (fst (ps ! nbr n i d))) [to_right_of nb (ss ! i)]
           @ map (Pair (fst (ps ! nbr n i (- d)))) [to_left_of nb (ss ! i)],
         replicate 1 (fst (ps ! nbr n i (- d))) @ replicate 1 (fst (ps ! nbr n i d)))"
  proof (intro allI impI)
    fix i assume i: "i < n"
    have fst_nbr: "fst (ps ! nbr n i e) = rank_at cs (int i + e)" for e
      using fst_ps [OF lt, of i e] rank_at_nbr [of cs i e] n0 by (simp add: n_def)
    show "snd (ps ! i) =
        (map (Pair (fst (ps ! nbr n i d))) [to_right_of nb (ss ! i)]
           @ map (Pair (fst (ps ! nbr n i (- d)))) [to_left_of nb (ss ! i)],
         replicate 1 (fst (ps ! nbr n i (- d))) @ replicate 1 (fst (ps ! nbr n i d)))"
      by (simp add: ps_i [OF i] post_def fst_nbr)
  qed
  note ex = ring_exchange [where a = 1 and b = 1, OF n0 ps_len ps_dist ps_nonnull ps_shape]
  have got_left: "deliver ps i 0 = Some (Some (to_right_of nb (ss ! nbr n i (- d))))"
    and got_right: "deliver ps i (Suc 0) = Some (Some (to_left_of nb (ss ! nbr n i d)))" if "i < n" for i
    using ex(2) [rule_format, OF _ that, of 0] ex(3) [rule_format, OF _ that, of 0] by simp_all
  have received: "sends_received ps"
    using ex(1) by simp
  \<comment> \<open>the completion\<close>
  have wait_i: "\<exists>s'. split_wait cs sp i = Inr s' \<and> scan_inv cs nb (Suc k) i s'" if "i < n" for i
  proof -
    have i': "i < length cs" using that by (simp add: n_def)
    note f = split_ready_facts [OF ready i']
    from f(3) obtain m0 where m0: "c_bins (cs ! i) = Some m0" by blast
    have A: "right_going cs nb k (nbr (length cs) i (- (2 ^ k))) (to_right_of nb (ss ! nbr n i (- d)))"
      using to_right_going [OF invi [OF lt] b(1,5), of i "- d"] by (simp add: n_def d_def)
    have B: "left_going cs nb k (nbr (length cs) i (2 ^ k)) (to_left_of nb (ss ! nbr n i d))"
      using to_left_going [OF invi [OF lt] b(1,5), of i d] by (simp add: n_def d_def)
    have "split_wait cs sp i
        = split_complete (cs ! i) (posted_state nb (ss ! i))
            (Some (to_right_of nb (ss ! nbr n i (- d)))) (Some (to_left_of nb (ss ! nbr n i d)))"
      using that unfolding split_wait_def Let_def ps_def [symmetric]
      by (simp add: ps_i got_left got_right) (simp add: post_def sp_def)
    moreover have "\<exists>s'. split_complete (cs ! i) (posted_state nb (ss ! i))
            (Some (to_right_of nb (ss ! nbr n i (- d)))) (Some (to_left_of nb (ss ! nbr n i d))) = Inr s'
          \<and> scan_inv cs nb (Suc k) i s'"
      using f(2) by (intro split_complete_inv [OF f(1) b(1) m0 _ _ b(5,6) more f(7) f(8) i' b(4)
            posted_state_inv [OF invi [OF that] b(1,5)] A B])
        (simp_all add: bin_at_nth [OF i'])
    ultimately show ?thesis by simp
  qed
  define nxt where "nxt i = projr (split_wait cs sp i)" for i
  have nxt: "split_wait cs sp i = Inr (nxt i) \<and> scan_inv cs nb (Suc k) i (nxt i)" if "i < n" for i
    using wait_i [OF that] by (auto simp: nxt_def)
  have "collect (map (split_wait cs sp) [0..<length sp]) = Inr (map nxt [0..<n])"
    unfolding collect_Inr_iff using nxt by (intro nth_equalityI) (simp_all add: sp_def)
  then have "split_round cs ss = Inr (map nxt [0..<n])"
    unfolding split_round_def using received by (simp add: posts ps_def)
  moreover have "scan_inv_all cs nb (Suc k) (map nxt [0..<n])"
    using nxt by (simp add: scan_inv_all_def n_def)
  ultimately show ?thesis by blast
qed

section \<open>The loop of the whole group\<close>

lemma split_begin_all:
  assumes "split_ready nb cs"
  shows "\<exists>ss. collect (map split_begin cs) = Inr ss \<and> scan_inv_all cs nb 0 ss"
proof -
  define st where "st i = projr (split_begin (cs ! i))" for i
  have st: "split_begin (cs ! i) = Inr (st i) \<and> scan_inv cs nb 0 i (st i)" if "i < length cs" for i
    using split_begin_inv [OF assms that] by (auto simp: st_def)
  have "collect (map split_begin cs) = Inr (map st [0..<length cs])"
    unfolding collect_Inr_iff using st by (intro nth_equalityI) simp_all
  moreover have "scan_inv_all cs nb 0 (map st [0..<length cs])"
    using st by (simp add: scan_inv_all_def)
  ultimately show ?thesis by blast
qed

lemma split_active_all:
  assumes "split_ready nb cs" "scan_inv_all cs nb k ss"
  shows "list_ex (\<lambda>(c, s). split_active c s) (zip cs ss) \<longleftrightarrow> 2 ^ k < length cs"
proof -
  have len: "length ss = length cs" and n0: "0 < length cs"
    using assms split_ready_basic(2) by (simp_all add: scan_inv_all_def)
  have act: "split_active (cs ! i) (ss ! i) \<longleftrightarrow> 2 ^ k < length cs" if "i < length cs" for i
  proof -
    have "sb_dist (ss ! i) = 2 ^ k" "group_size (c_in (cs ! i)) = int (length cs)"
      using assms that split_ready_facts(8) by (simp_all add: scan_inv_all_def scan_inv_def)
    moreover have "(2::int) ^ k < int (length cs) \<longleftrightarrow> 2 ^ k < length cs"
      using of_nat_less_iff [where ?'a = int, of "2 ^ k" "length cs"] by simp
    ultimately show ?thesis by (simp add: split_active_def)
  qed
  have "list_ex (\<lambda>(c, s). split_active c s) (zip cs ss)
      \<longleftrightarrow> (\<exists>i<length cs. split_active (cs ! i) (ss ! i))"
    using len by (auto simp: list_ex_iff set_zip)
  also have "\<dots> \<longleftrightarrow> 2 ^ k < length cs"
    using act n0 by auto
  finally show ?thesis .
qed

lemma split_loop_inv:
  assumes "split_ready nb cs" "scan_inv_all cs nb k ss"
  shows "\<exists>K ss'. split_loop cs ss = Some (Inr ss') \<and> scan_inv_all cs nb K ss' \<and>
           k \<le> K \<and> length cs \<le> 2 ^ K \<and> (K = k \<or> 2 ^ (K - 1) < length cs)"
  using assms(2)
proof (induction "length cs - 2 ^ k" arbitrary: k ss rule: less_induct)
  case less
  show ?case
  proof (cases "2 ^ k < length cs")
    case True
    from split_round_inv [OF assms(1) less.prems True]
    obtain ss1 where r: "split_round cs ss = Inr ss1" and i1: "scan_inv_all cs nb (Suc k) ss1"
      by blast
    have "length cs - 2 ^ Suc k < length cs - 2 ^ k"
    proof -
      define x :: nat where "x = 2 ^ k"
      have "0 < x" "x < length cs" using True by (simp_all add: x_def)
      then have "length cs - 2 * x < length cs - x" by arith
      then show ?thesis by (simp add: x_def)
    qed
    from less.hyps [OF this i1]
    obtain K ss' where K: "split_loop cs ss1 = Some (Inr ss')" "scan_inv_all cs nb K ss'"
        "Suc k \<le> K" "length cs \<le> 2 ^ K" "K = Suc k \<or> 2 ^ (K - 1) < length cs"
      by blast
    have "split_loop cs ss = split_loop cs ss1"
      by (subst split_loop.simps) (simp add: split_active_all [OF assms(1) less.prems] True r)
    moreover have "2 ^ (K - 1) < length cs"
      using K(5) True by auto
    ultimately show ?thesis
      using K by (intro exI [of _ K] exI [of _ ss']) simp
  next
    case False
    have "split_loop cs ss = Some (Inr ss)"
      by (subst split_loop.simps) (simp add: split_active_all [OF assms(1) less.prems] False)
    then show ?thesis
      using less.prems False by (intro exI [of _ k] exI [of _ ss]) simp
  qed
qed

lemma split_rounds_inv:
  assumes "split_ready nb cs" "collect (map split_begin cs) = Inr ss0"
    and "k = 0 \<or> 2 ^ (k - 1) < length cs"
  shows "\<exists>ss. split_rounds k cs ss0 = Inr ss \<and> scan_inv_all cs nb k ss"
  using assms(3)
proof (induction k)
  case 0
  show ?case
    using split_begin_all [OF assms(1)] assms(2) by simp
next
  case (Suc k)
  then have now: "2 ^ k < length cs" by simp
  have "2 ^ (k - 1) \<le> (2::nat) ^ k"
    by (intro power_increasing) simp_all
  then have "2 ^ (k - 1) < length cs"
    using now by (rule order_le_less_trans)
  then have "k = 0 \<or> 2 ^ (k - 1) < length cs" ..
  from Suc.IH [OF this] obtain ss where ss: "split_rounds k cs ss0 = Inr ss" "scan_inv_all cs nb k ss"
    by blast
  from split_round_inv [OF assms(1) ss(2) now] show ?case
    by (simp add: ss(1))
qed


section \<open>The outcome of the split\<close>

lemma split_bin_outcome:
  assumes "split_ready nb cs"
  shows "\<exists>K ss. lwgrp_ring_split_bin cs = Some (Inr (map (\<lambda>(c, s). split_finish c s) (zip cs ss))) \<and>
           scan_inv_all cs nb K ss \<and> length cs \<le> 2 ^ K \<and> (K = 0 \<or> 2 ^ (K - 1) < length cs)"
proof -
  from split_begin_all [OF assms] obtain ss0
    where b: "collect (map split_begin cs) = Inr ss0" "scan_inv_all cs nb 0 ss0" by blast
  from split_loop_inv [OF assms b(2)] obtain K ss
    where l: "split_loop cs ss0 = Some (Inr ss)" "scan_inv_all cs nb K ss"
      "length cs \<le> 2 ^ K" "K = 0 \<or> 2 ^ (K - 1) < length cs" by blast
  have "lwgrp_ring_split_bin cs = Some (Inr (map (\<lambda>(c, s). split_finish c s) (zip cs ss)))"
    by (simp add: lwgrp_ring_split_bin_def b(1) l(1))
  with l show ?thesis by blast
qed

lemma count_bin_take:
  "n \<le> length cs \<Longrightarrow>
   count_bin cs b 0 (int n - 1) = int (length (filter (\<lambda>c. c_my_bin c = b) (take n cs)))"
proof (induction n)
  case 0
  show ?case by (simp add: count_bin_def)
next
  case (Suc n)
  then have n: "n < length cs" by simp
  have "[0..int (Suc n) - 1] = [0..int n - 1] @ [int n]"
    using upto_rec2 [of 0 "int n"] by simp
  then show ?case
    using Suc n by (simp add: count_bin_def take_Suc_conv_app_nth bin_at_nth)
qed

lemma count_bin_all:
  "count_bin cs b 0 (int (length cs) - 1) = int (length (filter (\<lambda>c. c_my_bin c = b) cs))"
  using count_bin_take [of "length cs" cs b] by simp

lemma ranks_in_order:
  "map (\<lambda>i. length (filter P (take i xs))) (filter (\<lambda>i. P (xs ! i)) [0..<length xs])
   = [0..<length (filter P xs)]"
proof (induction xs rule: rev_induct)
  case Nil
  show ?case by simp
next
  case (snoc x xs)
  have "filter (\<lambda>i. P ((xs @ [x]) ! i)) [0..<length xs] = filter (\<lambda>i. P (xs ! i)) [0..<length xs]"
    by (intro filter_cong) (simp_all add: nth_append)
  moreover have "map (\<lambda>i. length (filter P (take i (xs @ [x])))) (filter (\<lambda>i. P (xs ! i)) [0..<length xs])
      = map (\<lambda>i. length (filter P (take i xs))) (filter (\<lambda>i. P (xs ! i)) [0..<length xs])"
    by (intro map_cong) simp_all
  ultimately show ?case
    using snoc by simp
qed

text \<open>What the finished call of member \<open>i\<close> holds, from the state of the scan.\<close>

lemma split_finish_fields:
  assumes ready: "split_ready nb cs" and i: "i < length cs"
    and inv: "scan_inv cs nb K i s"
    and K: "length cs \<le> 2 ^ K"
  shows "r_code (split_finish (cs ! i) s) = LWGRP_SUCCESS"
    and "r_rounds (split_finish (cs ! i) s) = K"
    and "c_my_bin (cs ! i) < 0 \<Longrightarrow> r_out (split_finish (cs ! i) s) = lwgrp_ring_set_null (c_out (cs ! i))"
    and "0 \<le> c_my_bin (cs ! i) \<Longrightarrow>
         r_out (split_finish (cs ! i) s) =
           (c_out (cs ! i))\<lparr>comm := comm (c_in (cs ! i)),
              comm_rank := comm_rank (c_in (cs ! i)),
              comm_left := (if length cs = 1 then comm_rank (c_in (cs ! i))
                            else nearest cs (c_my_bin (cs ! i)) (- 1) (int i - 1) (2 ^ K - 1)),
              comm_right := (if length cs = 1 then comm_rank (c_in (cs ! i))
                             else nearest cs (c_my_bin (cs ! i)) 1 (int i + 1) (2 ^ K - 1)),
              group_rank := int (length (filter (\<lambda>c. c_my_bin c = c_my_bin (cs ! i)) (take i cs))),
              group_size := int (length (filter (\<lambda>c. c_my_bin c = c_my_bin (cs ! i)) cs))\<rparr>"
proof -
  note f = split_ready_facts [OF ready i]
  show "r_code (split_finish (cs ! i) s) = LWGRP_SUCCESS"
    by (simp add: split_finish_def Let_def)
  show "r_rounds (split_finish (cs ! i) s) = K"
    using inv by (simp add: split_finish_def Let_def scan_inv_def)
  show "r_out (split_finish (cs ! i) s) = lwgrp_ring_set_null (c_out (cs ! i))" if "c_my_bin (cs ! i) < 0"
    using that by (simp add: split_finish_def Let_def)
  show "r_out (split_finish (cs ! i) s) =
           (c_out (cs ! i))\<lparr>comm := comm (c_in (cs ! i)),
              comm_rank := comm_rank (c_in (cs ! i)),
              comm_left := (if length cs = 1 then comm_rank (c_in (cs ! i))
                            else nearest cs (c_my_bin (cs ! i)) (- 1) (int i - 1) (2 ^ K - 1)),
              comm_right := (if length cs = 1 then comm_rank (c_in (cs ! i))
                             else nearest cs (c_my_bin (cs ! i)) 1 (int i + 1) (2 ^ K - 1)),
              group_rank := int (length (filter (\<lambda>c. c_my_bin c = c_my_bin (cs ! i)) (take i cs))),
              group_size := int (length (filter (\<lambda>c. c_my_bin c = c_my_bin (cs ! i)) cs))\<rparr>"
    if b0: "0 \<le> c_my_bin (cs ! i)"
  proof -
    define b where "b = c_my_bin (cs ! i)"
    have bi: "bin_at cs (int i) = b" using i by (simp add: bin_at_nth b_def)
    have b: "0 \<le> b" "b < nb" using b0 f(2) by (simp_all add: b_def)
    have big: "int (length cs) \<le> 2 ^ K"
      using K of_nat_le_iff [where ?'a = int, of "length cs" "2 ^ K"] by simp
    have cells: "sb_mem s (send_right_bins nb + (my_bin_index b + INDEX_COUNT))
          = count_bin cs b (max 0 (int i - 2 ^ K + 1)) (int i)"
        "sb_mem s (send_left_bins nb + (my_bin_index b + INDEX_COUNT))
          = count_bin cs b (int i) (min (int (length cs) - 1) (int i + 2 ^ K - 1))"
      using inv b unfolding scan_inv_def by blast+
    have lo: "max 0 (int i - 2 ^ K + 1) = 0" and hi: "min (int (length cs) - 1) (int i + 2 ^ K - 1) = int (length cs) - 1"
      using big i by linarith+
    have one: "count_bin cs b (int i) (int i) = 1"
      by (simp add: count_bin_single bi)
    have left: "count_bin cs b 0 (int i) = count_bin cs b 0 (int i - 1) + 1"
      using count_bin_split [of 0 "int i - 1" "int i" cs b] one by simp
    have whole: "count_bin cs b 0 (int i - 1) + count_bin cs b (int i) (int (length cs) - 1)
        = count_bin cs b 0 (int (length cs) - 1)"
      using count_bin_split [of 0 "int i - 1" "int (length cs) - 1" cs b] i by simp
    define cl where "cl = sb_mem s (send_right_bins nb + (my_bin_index b + INDEX_COUNT)) - 1"
    define cr where "cr = sb_mem s (send_left_bins nb + (my_bin_index b + INDEX_COUNT)) - 1"
    have rank: "cl = int (length (filter (\<lambda>c. c_my_bin c = b) (take i cs)))"
      using count_bin_take [of i cs b] i by (simp add: cl_def cells lo left)
    define sz where "sz = cl + cr + 1"
    have size: "sz = int (length (filter (\<lambda>c. c_my_bin c = b) cs))"
      using whole by (simp add: sz_def cl_def cr_def cells lo hi left count_bin_all)
    have links: "sb_my_left s = nearest cs b (- 1) (int i - 1) (2 ^ K - 1)"
        "sb_my_right s = nearest cs b 1 (int i + 1) (2 ^ K - 1)"
      using inv b by (simp_all add: scan_inv_def bi)
    have small: "int (length cs) \<le> 1073741824"
      using split_ready_basic(6) [OF ready] by simp
    have "length (filter (\<lambda>c. c_my_bin c = b) (take i cs)) \<le> length (take i cs)"
      by (rule length_filter_le)
    then have clb: "0 \<le> cl" "cl \<le> int (length cs)"
      using i by (simp_all add: rank)
    have crb: "- 1 \<le> cr" "cr \<le> int (length cs)"
      using count_bin_window [of "int i" "int (length cs) - 1" "int (length cs)" cs b]
      by (simp_all add: cr_def cells hi)
    have "length (filter (\<lambda>c. c_my_bin c = b) cs) \<le> length cs"
      by (rule length_filter_le)
    then have szb: "0 \<le> sz" "sz \<le> int (length cs)"
      by (simp_all add: size)
    have w: "int32 cl = cl" "int32 cr = cr" "int32 (cl + cr) = cl + cr"
        "int32 (cl + cr + 1) = cl + cr + 1"
      using clb crb szb small unfolding sz_def by (intro int32_id; linarith)+
    have "r_out (split_finish (cs ! i) s) =
           (c_out (cs ! i))\<lparr>comm := comm (c_in (cs ! i)),
              comm_rank := comm_rank (c_in (cs ! i)),
              comm_left := (if length cs = 1 then comm_rank (c_in (cs ! i)) else sb_my_left s),
              comm_right := (if length cs = 1 then comm_rank (c_in (cs ! i)) else sb_my_right s),
              group_rank := cl,
              group_size := sz\<rparr>"
      using b0 unfolding split_finish_def Let_def f(1) b_def [symmetric]
        cl_def [symmetric] cr_def [symmetric] w
      by (simp add: f(8) sz_def)
    then show ?thesis
      unfolding size rank links b_def .
  qed
qed


lemma rounds_ceiling:
  fixes n :: nat
  assumes "n \<le> 2 ^ K" "K = 0 \<or> 2 ^ (K - 1) < n" "0 < n"
  shows "int K = \<lceil>log 2 (real (max 1 (n)))\<rceil>"
proof -
  have "2 ^ K < 2 * n"
  proof (cases K)
    case 0
    have "1 \<le> n" using assms(3) by linarith
    then show ?thesis using 0 by simp
  next
    case (Suc k)
    then show ?thesis using assms(2) by simp
  qed
  then have "ceillog2 (n) = K"
    using assms(1) by (intro ceillog2_eqI)
  then have c: "nat \<lceil>log 2 (real (n))\<rceil> = K"
    using assms(3) by (simp add: ceillog2_def)
  have m: "max 1 (n) = n"
    using assms(3) by arith
  have "1 \<le> real (n)"
    using assms(3) by simp
  then have "0 \<le> log 2 (real (n))"
    by simp
  then have "0 \<le> \<lceil>log 2 (real (n))\<rceil>"
    by (simp add: zero_le_ceiling)
  then show ?thesis
    unfolding m using c by linarith
qed


lemma split_bin_each:
  assumes "split_ready nb cs"
  obtains K ss where
    "lwgrp_ring_split_bin cs = Some (Inr (map (\<lambda>(c, s). split_finish c s) (zip cs ss)))"
    "length ss = length cs" "length cs \<le> 2 ^ K" "K = 0 \<or> 2 ^ (K - 1) < length cs"
    "\<And>i. i < length cs \<Longrightarrow> scan_inv cs nb K i (ss ! i)"
    "\<And>i. i < length cs \<Longrightarrow>
       map (\<lambda>(c, s). split_finish c s) (zip cs ss) ! i = split_finish (cs ! i) (ss ! i)"
proof -
  from split_bin_outcome [OF assms] obtain K ss
    where o: "lwgrp_ring_split_bin cs = Some (Inr (map (\<lambda>(c, s). split_finish c s) (zip cs ss)))"
      "scan_inv_all cs nb K ss" "length cs \<le> 2 ^ K" "K = 0 \<or> 2 ^ (K - 1) < length cs"
    by blast
  have len: "length ss = length cs" using o(2) by (simp add: scan_inv_all_def)
  show ?thesis
    using o len by (intro that [of ss K]) (simp_all add: scan_inv_all_def)
qed


section \<open>Members of other bins\<close>

lemma colors5_ready:
  "split_ready 3 (colors5 [0, - 1, 0, 1, - 1])" "split_ready 3 (colors5 [0, 2, 0, 1, 2])"
  by (simp_all add: split_ready_def ring_linked_def colors5_def)

lemma rounds_unique:
  fixes n :: nat
  assumes "n \<le> 2 ^ K" "K = 0 \<or> 2 ^ (K - 1) < n" "n \<le> 2 ^ L" "L = 0 \<or> 2 ^ (L - 1) < n" "0 < n"
  shows "K = L"
proof -
  have "int K = \<lceil>log 2 (real (max 1 n))\<rceil>" by (rule rounds_ceiling [OF assms(1,2,5)])
  moreover have "int L = \<lceil>log 2 (real (max 1 n))\<rceil>" by (rule rounds_ceiling [OF assms(3,4,5)])
  ultimately show ?thesis by simp
qed

lemma same_bin_members:
  assumes len: "length cs' = length cs" "0 < length cs"
    and same: "\<And>j. j < length cs \<Longrightarrow> comm_rank (c_in (cs' ! j)) = comm_rank (c_in (cs ! j)) \<and>
                  (c_my_bin (cs' ! j) = b \<longleftrightarrow> c_my_bin (cs ! j) = b)"
  shows "(bin_at cs' j = b) = (bin_at cs j = b)" "rank_at cs' j = rank_at cs j"
proof -
  have "nat (j mod int (length cs)) < length cs"
    using len(2) by (simp add: nat_less_iff)
  from same [OF this] show "(bin_at cs' j = b) = (bin_at cs j = b)" "rank_at cs' j = rank_at cs j"
    by (simp_all add: bin_at_def rank_at_def len(1))
qed

lemma nearest_same_bin:
  assumes len: "length cs' = length cs" "0 < length cs"
    and same: "\<And>j. j < length cs \<Longrightarrow> comm_rank (c_in (cs' ! j)) = comm_rank (c_in (cs ! j)) \<and>
                  (c_my_bin (cs' ! j) = b \<longleftrightarrow> c_my_bin (cs ! j) = b)"
  shows "nearest cs' b st j n = nearest cs b st j n"
proof (induction n arbitrary: j)
  case 0
  show ?case by simp
next
  case (Suc n)
  show ?case
    using same_bin_members [OF len same, of j] Suc [of "j + st"] by simp
qed

lemma filter_same_bin:
  assumes len: "length cs' = length cs"
    and same: "\<And>j. j < length cs \<Longrightarrow> (c_my_bin (cs' ! j) = b \<longleftrightarrow> c_my_bin (cs ! j) = b)"
  shows "length (filter (\<lambda>c. c_my_bin c = b) (take n cs'))
       = length (filter (\<lambda>c. c_my_bin c = b) (take n cs))"
proof (induction n)
  case 0
  show ?case by simp
next
  case (Suc n)
  show ?case
  proof (cases "n < length cs")
    case True
    then show ?thesis
      using Suc same [OF True] len by (simp add: take_Suc_conv_app_nth)
  next
    case False
    then show ?thesis using Suc len by simp
  qed
qed

section \<open>The neighbours of a member with a companion in its bin\<close>













section \<open>The neighbours of a member alone in its bin\<close>







section \<open>The rounds of the all-to-all on a ring\<close>

lemma member_rank_mod: "member_rank cs (j mod int (length cs)) = member_rank cs j"
  by (simp add: member_rank_def)

lemma member_rank_nth: "i < length cs \<Longrightarrow> member_rank cs (int i) = comm_rank (a_group (cs ! i))"
  by (simp add: member_rank_def)

lemma member_rank_nbr:
  assumes "0 < length cs"
  shows "member_rank cs (int (nbr (length cs) i e) + f) = member_rank cs (int i + e + f)"
proof -
  have "member_rank cs (int (nbr (length cs) i e) + f)
      = member_rank cs (((int i + e) mod int (length cs) + f) mod int (length cs))"
    using assms by (simp only: int_nbr member_rank_mod)
  also have "((int i + e) mod int (length cs) + f) mod int (length cs)
      = (int i + e + f) mod int (length cs)"
    by (rule mod_add_left_eq)
  finally show ?thesis by (simp only: member_rank_mod)
qed

lemma alltoallv_ready_basic:
  assumes "alltoallv_ready cs"
  shows "0 < length cs" "distinct (map (\<lambda>c. comm_rank (a_group c)) cs)"
    "0 \<le> member_rank cs j" "member_rank cs j \<noteq> MPI_PROC_NULL"
    "\<exists>q<length cs. member_rank cs j = comm_rank (a_group (cs ! q))"
    "length cs < 2147483648"
proof -
  have ring: "ring_linked (map a_group cs)" using assms by (simp add: alltoallv_ready_def)
  show "length cs < 2147483648" using assms by (simp add: alltoallv_ready_def)
  show n: "0 < length cs" "distinct (map (\<lambda>c. comm_rank (a_group c)) cs)"
    using ring by (auto simp: ring_linked_def comp_def)
  then have lt: "nat (j mod int (length cs)) < length cs"
    by (simp add: nat_less_iff)
  from ring_linked_nth(1) [OF ring, of "nat (j mod int (length cs))"] lt
  show "0 \<le> member_rank cs j" by (simp add: member_rank_def)
  then show "member_rank cs j \<noteq> MPI_PROC_NULL"
    using MPI_PROC_NULL_negative by simp
  show "\<exists>q<length cs. member_rank cs j = comm_rank (a_group (cs ! q))"
    using lt by (auto simp: member_rank_def)
qed

lemma alltoallv_ready_group:
  assumes "alltoallv_ready cs" "i < length cs"
  shows "comm_rank (a_group (cs ! i)) = member_rank cs (int i)"
    "comm_left (a_group (cs ! i)) = member_rank cs (int i - 1)"
    "comm_right (a_group (cs ! i)) = member_rank cs (int i + 1)"
    "group_size (a_group (cs ! i)) = int (length cs)"
proof -
  have ring: "ring_linked (map a_group cs)" using assms by (simp add: alltoallv_ready_def)
  have "0 < length cs" using assms(2) by linarith
  then have lt: "nat (j mod int (length cs)) < length cs" for j
    by (simp add: nat_less_iff)
  show "comm_rank (a_group (cs ! i)) = member_rank cs (int i)"
    using assms(2) by (simp add: member_rank_nth)
  show "comm_left (a_group (cs ! i)) = member_rank cs (int i - 1)"
    using ring_linked_nth(4) [OF ring, of i] assms(2) lt [of "int i - 1"]
    by (simp add: member_rank_def)
  show "comm_right (a_group (cs ! i)) = member_rank cs (int i + 1)"
    using ring_linked_nth(5) [OF ring, of i] assms(2) lt [of "int i + 1"]
    by (simp add: member_rank_def)
  show "group_size (a_group (cs ! i)) = int (length cs)"
    using ring_linked_nth(3) [OF ring, of i] assms(2) by simp
qed

lemma alltoallv_ready_arrays:
  assumes "alltoallv_ready cs" "i < length cs"
  shows "array_at (a_sendcounts (cs ! i)) (member_rank cs j)
           = Some (a_sendcounts (cs ! i) ! nat (member_rank cs j))"
    "array_at (a_senddispls (cs ! i)) (member_rank cs j)
           = Some (a_senddispls (cs ! i) ! nat (member_rank cs j))"
    "array_at (a_recvcounts (cs ! i)) (member_rank cs j)
           = Some (a_recvcounts (cs ! i) ! nat (member_rank cs j))"
    "array_at (a_recvdispls (cs ! i)) (member_rank cs j)
           = Some (a_recvdispls (cs ! i) ! nat (member_rank cs j))"
    "0 \<le> a_sendcounts (cs ! i) ! nat (member_rank cs j)"
    "0 \<le> a_recvcounts (cs ! i) ! nat (member_rank cs j)"
    "q < length cs \<Longrightarrow> a_sendcounts (cs ! q) ! nat (member_rank cs (int i))
        \<le> a_recvcounts (cs ! i) ! nat (member_rank cs (int q))"
proof -
  note b = alltoallv_ready_basic [OF assms(1)]
  have pair: "(let t = comm_rank (a_group d) in
         t < int (length (a_sendcounts c)) \<and> t < int (length (a_senddispls c)) \<and>
         t < int (length (a_recvcounts c)) \<and> t < int (length (a_recvdispls c)) \<and>
         0 \<le> a_sendcounts c ! nat t \<and> 0 \<le> a_recvcounts c ! nat t \<and>
         a_sendcounts c ! nat t \<le> a_recvcounts d ! nat (comm_rank (a_group c)))"
    if "c \<in> set cs" "d \<in> set cs" for c d
    using assms(1) that unfolding alltoallv_ready_def list_all_iff by blast
  from b(5) [of j] obtain p where p: "p < length cs" "member_rank cs j = comm_rank (a_group (cs ! p))"
    by blast
  have "cs ! i \<in> set cs" "cs ! p \<in> set cs" using assms(2) p(1) by simp_all
  from pair [OF this] have r:
    "member_rank cs j < int (length (a_sendcounts (cs ! i)))"
    "member_rank cs j < int (length (a_senddispls (cs ! i)))"
    "member_rank cs j < int (length (a_recvcounts (cs ! i)))"
    "member_rank cs j < int (length (a_recvdispls (cs ! i)))"
    "0 \<le> a_sendcounts (cs ! i) ! nat (member_rank cs j)"
    "0 \<le> a_recvcounts (cs ! i) ! nat (member_rank cs j)"
    by (simp_all add: Let_def p(2))
  show "array_at (a_sendcounts (cs ! i)) (member_rank cs j)
           = Some (a_sendcounts (cs ! i) ! nat (member_rank cs j))"
    "array_at (a_senddispls (cs ! i)) (member_rank cs j)
           = Some (a_senddispls (cs ! i) ! nat (member_rank cs j))"
    "array_at (a_recvcounts (cs ! i)) (member_rank cs j)
           = Some (a_recvcounts (cs ! i) ! nat (member_rank cs j))"
    "array_at (a_recvdispls (cs ! i)) (member_rank cs j)
           = Some (a_recvdispls (cs ! i) ! nat (member_rank cs j))"
    using r(1-4) b(3) [of j] by (simp_all add: array_at_def)
  show "0 \<le> a_sendcounts (cs ! i) ! nat (member_rank cs j)"
    "0 \<le> a_recvcounts (cs ! i) ! nat (member_rank cs j)"
    by (rule r(5), rule r(6))
  show "a_sendcounts (cs ! q) ! nat (member_rank cs (int i))
        \<le> a_recvcounts (cs ! i) ! nat (member_rank cs (int q))" if "q < length cs"
  proof -
    have "cs ! q \<in> set cs" "cs ! i \<in> set cs" using assms(2) that by simp_all
    from pair [OF this] show ?thesis
      using assms(2) that by (simp add: Let_def member_rank_nth)
  qed
qed

lemma alltoallv_begin_inv:
  assumes "alltoallv_ready cs" "i < length cs"
  shows "al_inv cs 0 i (alltoallv_begin (cs ! i))"
  using alltoallv_ready_group [OF assms]
  by (simp add: al_inv_def alltoallv_begin_def)

lemma alltoallv_round_inv:
  assumes ready: "alltoallv_ready cs"
    and inv: "al_inv_all cs k ss"
    and more: "k < length cs"
  shows "\<exists>ss'. alltoallv_round cs ss = Inr ss' \<and> al_inv_all cs (Suc k) ss'"
proof -
  define n where "n = length cs"
  define d :: int where "d = 2 ^ k"
  note b = alltoallv_ready_basic [OF ready]
  have len: "length ss = n" and n0: "0 < n"
    using inv b(1) by (simp_all add: al_inv_all_def n_def)
  have invi: "al_inv cs k i (ss ! i)" if "i < n" for i
    using inv that by (simp add: al_inv_all_def n_def)
  have src_i: "al_src (ss ! i) = member_rank cs (int i - d)"
    and dst_i: "al_dst (ss ! i) = member_rank cs (int i + d)"
    and dist_i: "al_dist (ss ! i) = int k" if "i < n" for i
    using invi [OF that] by (simp_all add: al_inv_def d_def)
  have lt: "nbr n i e < n" for i e
    using n0 by (rule nbr_less)
  define outs where "outs i = [Data (sent (cs ! i) (member_rank cs (int i + d))),
                               Address (member_rank cs (int i - d))]" for i
  define backs :: "nat \<Rightarrow> 'a message list"
    where "backs i = [Address (member_rank cs (int i + d))]" for i
  define logged where "logged i = (ss ! i)\<lparr>al_requests :=
       [Isend (member_rank cs (int i - d)), Isend (member_rank cs (int i + d)),
        Irecv (member_rank cs (int i + d)), Irecv (member_rank cs (int i - d)),
        Isend (member_rank cs (int i + d)), Irecv (member_rank cs (int i - d))]
       @ al_requests (ss ! i)\<rparr>" for i
  define post where "post i =
     (logged i,
      (member_rank cs (int i),
       map (Pair (member_rank cs (int i + d))) (outs i)
         @ map (Pair (member_rank cs (int i - d))) (backs i),
       replicate 2 (member_rank cs (int i - d)) @ replicate 1 (member_rank cs (int i + d))))" for i
  define sp where "sp = map post [0..<n]"
  have active: "alltoallv_active (cs ! i) (ss ! i)" if "i < n" for i
    using that more alltoallv_ready_group(4) [OF ready, of i] dist_i [OF that]
    by (simp add: alltoallv_active_def n_def)
  have post_i: "alltoallv_post (cs ! i) (ss ! i) = Inr (post i)" if "i < n" for i
  proof -
    have i': "i < length cs" using that by (simp add: n_def)
    note g = alltoallv_ready_group [OF ready i']
    note a = alltoallv_ready_arrays [OF ready i']
    show ?thesis
      unfolding alltoallv_post_def Let_def src_i [OF that] dst_i [OF that] a(1-4)
      using a(5) [of "int i + d"] a(6) [of "int i - d"]
      by (simp add: post_def logged_def outs_def backs_def sent_def g(1)
          lwgrp_type_dtbuf_from_dtbuf_def numeral_2_eq_2)
  qed
  have posts: "alltoallv_posts cs ss = Inr sp"
    unfolding alltoallv_posts_def collect_Inr_iff sp_def
    using len active post_i
    by (intro nth_equalityI) (simp_all add: n_def)
  define ps where "ps = map snd sp"
  have ps_i: "ps ! i = snd (post i)" if "i < n" for i
    using that by (simp add: ps_def sp_def)
  have ps_len: "length ps = n" by (simp add: ps_def sp_def)
  have fst_ps: "fst (ps ! i) = member_rank cs (int i)" if "i < n" for i
    using that by (simp add: ps_i post_def)
  have "map fst ps = map (\<lambda>c. comm_rank (a_group c)) cs"
    using ps_len fst_ps by (intro nth_equalityI) (simp_all add: n_def member_rank_nth)
  then have ps_dist: "distinct (map fst ps)"
    using b(2) by simp
  have ps_nonnull: "\<forall>i<n. fst (ps ! i) \<noteq> MPI_PROC_NULL"
    using fst_ps b(4) by simp
  have fst_nbr: "fst (ps ! nbr n i e) = member_rank cs (int i + e)" for i e
    using fst_ps [OF lt, of i e] member_rank_nbr [OF b(1), of i e 0] by (simp add: n_def)
  have ps_shape: "\<forall>i<n. snd (ps ! i) =
        (map (Pair (fst (ps ! nbr n i d))) (outs i)
           @ map (Pair (fst (ps ! nbr n i (- d)))) (backs i),
         replicate 2 (fst (ps ! nbr n i (- d))) @ replicate 1 (fst (ps ! nbr n i d)))"
    by (simp add: ps_i post_def fst_nbr)
  have ps_lens: "\<forall>i<n. length (outs i) = 2 \<and> length (backs i) = 1"
    by (simp add: outs_def backs_def)
  note ex = ring_exchange [where a = 2 and b = 1, OF n0 ps_len ps_dist ps_nonnull ps_shape ps_lens]
  have got0: "deliver ps i 0 = Some (Some (outs (nbr n i (- d)) ! 0))"
    and got1: "deliver ps i (Suc 0) = Some (Some (outs (nbr n i (- d)) ! Suc 0))"
    and got2: "deliver ps i 2 = Some (Some (backs (nbr n i d) ! 0))" if "i < n" for i
    using ex(2) [rule_format, OF that, of 0] ex(2) [rule_format, OF that, of 1]
      ex(3) [rule_format, OF that, of 0] by simp_all
  have received: "sends_received ps"
    using ex(1) by simp
  have wait_i: "\<exists>s'. alltoallv_wait cs sp i = Inr s' \<and> al_inv cs (Suc k) i s'" if "i < n" for i
  proof -
    have i': "i < length cs" using that by (simp add: n_def)
    note g = alltoallv_ready_group [OF ready i']
    note a = alltoallv_ready_arrays [OF ready i']
    define q where "q = nbr n i (- d)"
    have q: "q < length cs" "q = nat ((int i - d) mod int (length cs))"
      using lt [of i "- d"] by (simp_all add: q_def n_def nbr_def)
    have rq: "member_rank cs (int q + e) = member_rank cs (int i - d + e)" for e
      using member_rank_nbr [OF b(1), of i "- d" e] by (simp add: q_def n_def)
    have rq0: "member_rank cs (int q) = member_rank cs (int i - d)"
      using rq [of 0] by simp
    have rp: "member_rank cs (int (nbr n i d) + d) = member_rank cs (int i + d + d)"
      using member_rank_nbr [OF b(1), of i d d] by (simp add: n_def)
    have m0: "outs q ! 0 = Data (sent (cs ! q) (member_rank cs (int i)))"
      using rq [of d] by (simp add: outs_def)
    have m1: "outs q ! Suc 0 = Address (member_rank cs (int i - 2 ^ Suc k))"
    proof -
      have "int q - d = int q + (- d)" by simp
      then have "member_rank cs (int q - d) = member_rank cs (int i - d + - d)"
        using rq [of "- d"] by simp
      also have "int i - d + - d = int i - 2 ^ Suc k" by (simp add: d_def)
      finally show ?thesis by (simp add: outs_def)
    qed
    have m2: "backs (nbr n i d) ! 0 = Address (member_rank cs (int i + 2 ^ Suc k))"
    proof -
      have e: "int i + d + d = int i + 2 ^ Suc k" by (simp add: d_def)
      have "member_rank cs (int (nbr n i d) + d) = member_rank cs (int i + 2 ^ Suc k)"
        using rp by (simp only: e)
      then show ?thesis unfolding backs_def by simp
    qed
    have fits: "int (length (sent (cs ! q) (member_rank cs (int i))))
        \<le> a_recvcounts (cs ! i) ! nat (member_rank cs (int i - d))"
    proof -
      note aq = alltoallv_ready_arrays [OF ready q(1)]
      have "int (length (sent (cs ! q) (member_rank cs (int i))))
          = a_sendcounts (cs ! q) ! nat (member_rank cs (int i))"
        using aq(5) [of "int i"] by (simp add: sent_def)
      also have "\<dots> \<le> a_recvcounts (cs ! i) ! nat (member_rank cs (int q))"
        by (rule a(7) [OF q(1)])
      finally show ?thesis by (simp only: rq0)
    qed
    have w: "alltoallv_wait cs sp i
        = alltoallv_complete (cs ! i) (logged i)
            (Some (Data (sent (cs ! q) (member_rank cs (int i)))))
            (Some (Address (member_rank cs (int i - 2 ^ Suc k))))
            (Some (Address (member_rank cs (int i + 2 ^ Suc k))))"
      using that unfolding alltoallv_wait_def Let_def ps_def [symmetric]
      by (simp add: ps_i got0 got1 got2 q_def [symmetric] m0 m1 m2)
        (simp add: post_def sp_def)
    have src_l: "al_src (logged i) = member_rank cs (int i - d)"
      using src_i [OF that] by (simp add: logged_def)
    define s' where "s' = (logged i)\<lparr>
        al_recvbuf := store_data (a_recvdispls (cs ! i) ! nat (member_rank cs (int i - d)))
                        (sent (cs ! q) (member_rank cs (int i))) (al_recvbuf (logged i)),
        al_src := member_rank cs (int i - 2 ^ Suc k),
        al_dst := member_rank cs (int i + 2 ^ Suc k),
        al_src_next := member_rank cs (int i - 2 ^ Suc k),
        al_dst_next := member_rank cs (int i + 2 ^ Suc k),
        al_dist := int32 (al_dist (logged i) + 1),
        al_waits := Suc (al_waits (logged i))\<rparr>"
    have c: "alltoallv_complete (cs ! i) (logged i)
            (Some (Data (sent (cs ! q) (member_rank cs (int i)))))
            (Some (Address (member_rank cs (int i - 2 ^ Suc k))))
            (Some (Address (member_rank cs (int i + 2 ^ Suc k)))) = Inr s'"
      unfolding alltoallv_complete_def src_l a(3,4)
      using fits by (simp add: s'_def lwgrp_type_dtbuf_from_dtbuf_def)
    have wd: "int32 (int k + 1) = int k + 1"
      using more b(6) by (intro int32_id) linarith+
    have "al_inv cs (Suc k) i s'"
      using invi [OF that] wd unfolding al_inv_def
      by (simp add: s'_def logged_def d_def q(2))
    with w c show ?thesis by simp
  qed
  define nxt where "nxt i = projr (alltoallv_wait cs sp i)" for i
  have nxt: "alltoallv_wait cs sp i = Inr (nxt i) \<and> al_inv cs (Suc k) i (nxt i)" if "i < n" for i
    using wait_i [OF that] by (auto simp: nxt_def)
  have "collect (map (alltoallv_wait cs sp) [0..<length sp]) = Inr (map nxt [0..<n])"
    unfolding collect_Inr_iff using nxt by (intro nth_equalityI) (simp_all add: sp_def)
  then have "alltoallv_round cs ss = Inr (map nxt [0..<n])"
    unfolding alltoallv_round_def using received by (simp add: posts ps_def)
  moreover have "al_inv_all cs (Suc k) (map nxt [0..<n])"
    using nxt by (simp add: al_inv_all_def n_def)
  ultimately show ?thesis by blast
qed

lemma alltoallv_active_all:
  assumes "alltoallv_ready cs" "al_inv_all cs k ss"
  shows "list_ex (\<lambda>(c, s). alltoallv_active c s) (zip cs ss) \<longleftrightarrow> k < length cs"
proof -
  have len: "length ss = length cs" and n0: "0 < length cs"
    using assms alltoallv_ready_basic(1) by (simp_all add: al_inv_all_def)
  have act: "alltoallv_active (cs ! i) (ss ! i) \<longleftrightarrow> k < length cs" if "i < length cs" for i
  proof -
    have "al_dist (ss ! i) = int k" "group_size (a_group (cs ! i)) = int (length cs)"
      using assms that alltoallv_ready_group(4) by (simp_all add: al_inv_all_def al_inv_def)
    then show ?thesis by (simp add: alltoallv_active_def)
  qed
  have "list_ex (\<lambda>(c, s). alltoallv_active c s) (zip cs ss)
      \<longleftrightarrow> (\<exists>i<length cs. alltoallv_active (cs ! i) (ss ! i))"
    using len by (auto simp: list_ex_iff set_zip)
  also have "\<dots> \<longleftrightarrow> k < length cs"
    using act n0 by auto
  finally show ?thesis .
qed

lemma alltoallv_loop_inv:
  assumes "alltoallv_ready cs" "al_inv_all cs k ss" "k \<le> length cs"
  shows "\<exists>ss'. alltoallv_loop cs ss = Some (Inr ss') \<and> al_inv_all cs (length cs) ss'"
  using assms(2,3)
proof (induction "length cs - k" arbitrary: k ss rule: less_induct)
  case less
  show ?case
  proof (cases "k < length cs")
    case True
    from alltoallv_round_inv [OF assms(1) less.prems(1) True]
    obtain ss1 where r: "alltoallv_round cs ss = Inr ss1" and i1: "al_inv_all cs (Suc k) ss1"
      by blast
    have "length cs - Suc k < length cs - k" using True by arith
    moreover have "Suc k \<le> length cs" using True by simp
    ultimately obtain ss' where K: "alltoallv_loop cs ss1 = Some (Inr ss')"
        "al_inv_all cs (length cs) ss'"
      using less.hyps [OF _ i1] by blast
    have "alltoallv_loop cs ss = alltoallv_loop cs ss1"
      by (subst alltoallv_loop.simps)
        (simp add: alltoallv_active_all [OF assms(1) less.prems(1)] True r)
    then show ?thesis using K by simp
  next
    case False
    then have k: "k = length cs" using less.prems(2) by simp
    have "alltoallv_loop cs ss = Some (Inr ss)"
      by (subst alltoallv_loop.simps)
        (simp add: alltoallv_active_all [OF assms(1) less.prems(1)] False)
    then show ?thesis
      using less.prems(1) k by simp
  qed
qed

lemma alltoallv_begin_all:
  assumes "alltoallv_ready cs"
  shows "al_inv_all cs 0 (map alltoallv_begin cs)"
  using alltoallv_begin_inv [OF assms] by (simp add: al_inv_all_def)

lemma store_data_inside:
  "0 \<le> k \<Longrightarrow> k < int (length xs) \<Longrightarrow> store_data base xs m (base + k) = xs ! nat k"
  by (simp add: store_data_def)

lemma solo_ready: "alltoallv_ready [solo_call]"
  by (simp add: alltoallv_ready_def ring_linked_def solo_call_def)

lemma exchange4_ready: "alltoallv_ready exchange4"
  by (simp add: alltoallv_ready_def ring_linked_def exchange4_def ring4_def)

section \<open>The calls on a ring\<close>

text \<open>
  The results of this section are about groups linked as a ring (\<open>split_ready\<close>,
  \<open>alltoallv_ready\<close>): the first member is the right neighbour of the last. The group
  has at most \<open>2 ^ 30\<close> members and fewer than \<open>2 ^ 28\<close> bins, so that no \<^verbatim>\<open>int\<close> of
  the code leaves its range.
\<close>

text \<open>
  The split returns for every member, and every member with \<open>my_bin \<ge> 0\<close> obtains a
  descriptor whose group size is the number of members with the same bin and whose
  group rank is the number of such members before it in the input group. Hence the
  ranks of the members of a bin, read in input order, are \<open>0, 1, \<dots>, size - 1\<close>.
\<close>

lemma split_bin_sizes_and_ranks:
  "split_ready num_bins cs \<Longrightarrow>
   \<exists>rs. lwgrp_ring_split_bin cs = Some (Inr rs) \<and> length rs = length cs \<and>
        (\<forall>i<length cs. 0 \<le> c_my_bin (cs ! i) \<longrightarrow>
           group_size (r_out (rs ! i))
             = int (length (filter (\<lambda>c. c_my_bin c = c_my_bin (cs ! i)) cs)) \<and>
           group_rank (r_out (rs ! i))
             = int (length (filter (\<lambda>c. c_my_bin c = c_my_bin (cs ! i)) (take i cs)))) \<and>
        (\<forall>b\<ge>0. map (\<lambda>i. group_rank (r_out (rs ! i)))
                   (filter (\<lambda>i. c_my_bin (cs ! i) = b) [0..<length cs])
                 = map int [0..<length (filter (\<lambda>c. c_my_bin c = b) cs)])"
proof -
  assume ready: "split_ready num_bins cs"
  show ?thesis
  proof (rule split_bin_each [OF ready])
  fix K ss
  assume o:
    "lwgrp_ring_split_bin cs = Some (Inr (map (\<lambda>(c, s). split_finish c s) (zip cs ss)))"
    "length ss = length cs" "length cs \<le> 2 ^ K" "K = 0 \<or> 2 ^ (K - 1) < length cs"
    "\<And>i. i < length cs \<Longrightarrow> scan_inv cs num_bins K i (ss ! i)"
    "\<And>i. i < length cs \<Longrightarrow>
       map (\<lambda>(c, s). split_finish c s) (zip cs ss) ! i = split_finish (cs ! i) (ss ! i)"
  define rs where "rs = map (\<lambda>(c, s). split_finish c s) (zip cs ss)"
  have out: "r_out (rs ! i) =
           (c_out (cs ! i))\<lparr>comm := comm (c_in (cs ! i)),
              comm_rank := comm_rank (c_in (cs ! i)),
              comm_left := (if length cs = 1 then comm_rank (c_in (cs ! i))
                            else nearest cs (c_my_bin (cs ! i)) (- 1) (int i - 1) (2 ^ K - 1)),
              comm_right := (if length cs = 1 then comm_rank (c_in (cs ! i))
                             else nearest cs (c_my_bin (cs ! i)) 1 (int i + 1) (2 ^ K - 1)),
              group_rank := int (length (filter (\<lambda>c. c_my_bin c = c_my_bin (cs ! i)) (take i cs))),
              group_size := int (length (filter (\<lambda>c. c_my_bin c = c_my_bin (cs ! i)) cs))\<rparr>"
    if "i < length cs" "0 \<le> c_my_bin (cs ! i)" for i
    unfolding rs_def o(6) [OF that(1)]
    using that(2) by (rule split_finish_fields(4) [OF ready that(1) o(5) [OF that(1)] o(3)])
  have ordered: "map (\<lambda>i. group_rank (r_out (rs ! i))) (filter (\<lambda>i. c_my_bin (cs ! i) = b) [0..<length cs])
      = map int [0..<length (filter (\<lambda>c. c_my_bin c = b) cs)]" if "0 \<le> b" for b
  proof -
    have "map (\<lambda>i. group_rank (r_out (rs ! i))) (filter (\<lambda>i. c_my_bin (cs ! i) = b) [0..<length cs])
        = map (\<lambda>i. int (length (filter (\<lambda>c. c_my_bin c = b) (take i cs))))
            (filter (\<lambda>i. c_my_bin (cs ! i) = b) [0..<length cs])"
      using that by (intro map_cong refl) (auto simp: out)
    also have "\<dots> = map int (map (\<lambda>i. length (filter (\<lambda>c. c_my_bin c = b) (take i cs)))
            (filter (\<lambda>i. c_my_bin (cs ! i) = b) [0..<length cs]))"
      by simp
    also have "\<dots> = map int [0..<length (filter (\<lambda>c. c_my_bin c = b) cs)]"
      using ranks_in_order [of "\<lambda>c. c_my_bin c = b" cs] by simp
    finally show ?thesis .
  qed
  show ?thesis
  proof (intro exI [of _ rs] conjI allI impI)
    show "lwgrp_ring_split_bin cs = Some (Inr rs)"
      unfolding rs_def by (rule o(1))
    show "length rs = length cs"
      using o(2) by (simp add: rs_def)
  next
    fix i assume i: "i < length cs" "0 \<le> c_my_bin (cs ! i)"
    show "group_size (r_out (rs ! i)) = int (length (filter (\<lambda>c. c_my_bin c = c_my_bin (cs ! i)) cs))"
      "group_rank (r_out (rs ! i)) = int (length (filter (\<lambda>c. c_my_bin c = c_my_bin (cs ! i)) (take i cs)))"
      by (simp_all add: out [OF i])
  next
    fix b :: int assume "0 \<le> b"
    then show "map (\<lambda>i. group_rank (r_out (rs ! i))) (filter (\<lambda>i. c_my_bin (cs ! i) = b) [0..<length cs])
      = map int [0..<length (filter (\<lambda>c. c_my_bin c = b) cs)]"
      by (rule ordered)
  qed
  qed
qed

text \<open>
  Every member of a ring of \<open>N\<close> members goes through exactly \<open>\<lceil>log\<^sub>2 (max 1 N)\<rceil>\<close>
  rounds.
\<close>

lemma split_bin_round_count:
  "split_ready num_bins cs \<Longrightarrow>
   \<exists>rs. lwgrp_ring_split_bin cs = Some (Inr rs) \<and> length rs = length cs \<and>
        (\<forall>i<length cs. int (r_rounds (rs ! i)) = \<lceil>log 2 (real (max 1 (length cs)))\<rceil>)"
proof -
  assume ready: "split_ready num_bins cs"
  from split_bin_outcome [OF ready] obtain K ss
    where o: "lwgrp_ring_split_bin cs = Some (Inr (map (\<lambda>(c, s). split_finish c s) (zip cs ss)))"
      "scan_inv_all cs num_bins K ss" "length cs \<le> 2 ^ K" "K = 0 \<or> 2 ^ (K - 1) < length cs"
    by blast
  have len: "length ss = length cs" using o(2) by (simp add: scan_inv_all_def)
  have "int (r_rounds (map (\<lambda>(c, s). split_finish c s) (zip cs ss) ! i))
      = \<lceil>log 2 (real (max 1 (length cs)))\<rceil>" if "i < length cs" for i
  proof -
    have "scan_inv cs num_bins K i (ss ! i)"
      using o(2) that by (simp add: scan_inv_all_def)
    from split_finish_fields(2) [OF ready that this o(3)] show ?thesis
      using that len rounds_ceiling [OF o(3,4) split_ready_basic(2) [OF ready]] by simp
  qed
  then show ?thesis
    using o(1) len by (intro exI [of _ "map (\<lambda>(c, s). split_finish c s) (zip cs ss)"]) simp
qed

text \<open>
  Every member of a ring that calls with \<open>my_bin < 0\<close> obtains what
  \<open>lwgrp_ring_set_null\<close> leaves in the descriptor.
\<close>

lemma split_bin_opt_out_null:
  "split_ready num_bins cs \<Longrightarrow>
   \<exists>rs. lwgrp_ring_split_bin cs = Some (Inr rs) \<and> length rs = length cs \<and>
        (\<forall>i<length cs. c_my_bin (cs ! i) < 0 \<longrightarrow>
           r_code (rs ! i) = LWGRP_SUCCESS \<and>
           r_out (rs ! i) = lwgrp_ring_set_null (c_out (cs ! i)) \<and>
           group_size (r_out (rs ! i)) = 0 \<and>
           comm_left (r_out (rs ! i)) = MPI_PROC_NULL \<and>
           comm_right (r_out (rs ! i)) = MPI_PROC_NULL)"
proof -
  assume ready: "split_ready num_bins cs"
  show ?thesis
  proof (rule split_bin_each [OF ready])
  fix K ss
  assume o:
    "lwgrp_ring_split_bin cs = Some (Inr (map (\<lambda>(c, s). split_finish c s) (zip cs ss)))"
    "length ss = length cs" "length cs \<le> 2 ^ K" "K = 0 \<or> 2 ^ (K - 1) < length cs"
    "\<And>i. i < length cs \<Longrightarrow> scan_inv cs num_bins K i (ss ! i)"
    "\<And>i. i < length cs \<Longrightarrow>
       map (\<lambda>(c, s). split_finish c s) (zip cs ss) ! i = split_finish (cs ! i) (ss ! i)"
  show ?thesis
  proof (intro exI [of _ "map (\<lambda>(c, s). split_finish c s) (zip cs ss)"] conjI allI impI)
    show "lwgrp_ring_split_bin cs = Some (Inr (map (\<lambda>(c, s). split_finish c s) (zip cs ss)))"
      by (rule o(1))
    show "length (map (\<lambda>(c, s). split_finish c s) (zip cs ss)) = length cs"
      using o(2) by simp
  next
    fix i assume i: "i < length cs" and neg: "c_my_bin (cs ! i) < 0"
    note f = split_finish_fields [OF ready i o(5) [OF i] o(3)]
    show "r_code (map (\<lambda>(c, s). split_finish c s) (zip cs ss) ! i) = LWGRP_SUCCESS"
      unfolding o(6) [OF i] by (rule f(1))
    show null: "r_out (map (\<lambda>(c, s). split_finish c s) (zip cs ss) ! i)
        = lwgrp_ring_set_null (c_out (cs ! i))"
      unfolding o(6) [OF i] using neg by (rule f(3))
    show "group_size (r_out (map (\<lambda>(c, s). split_finish c s) (zip cs ss) ! i)) = 0"
      "comm_left (r_out (map (\<lambda>(c, s). split_finish c s) (zip cs ss) ! i)) = MPI_PROC_NULL"
      "comm_right (r_out (map (\<lambda>(c, s). split_finish c s) (zip cs ss) ! i)) = MPI_PROC_NULL"
      unfolding null by (simp_all add: lwgrp_ring_set_null_def)
  qed
  qed
qed

text \<open>
  The send buffers after \<open>k\<close> rounds on a ring (\<open>k\<close> not beyond the last round): the
  right-going closest cell of bin \<open>b\<close> at member \<open>i\<close> holds the rank of the first member
  of bin \<open>b\<close> among the \<open>2 ^ k\<close> ring positions \<open>i, i - 1, \<dots>\<close> taken around the ring
  (the member itself included, \<^verbatim>\<open>MPI_PROC_NULL\<close> if there is none), the left-going
  closest cell the same for the positions \<open>i, i + 1, \<dots>\<close>, and the counts are the
  numbers of members of bin \<open>b\<close> in the same windows cut off at the first and the last
  position of the group.
\<close>

lemma split_bin_scan_state:
  "split_ready num_bins cs \<Longrightarrow> k = 0 \<or> 2 ^ (k - 1) < length cs \<Longrightarrow>
   \<exists>ss0 ss. collect (map split_begin cs) = Inr ss0 \<and> split_rounds k cs ss0 = Inr ss \<and>
      length ss = length cs \<and>
      (\<forall>i<length cs. \<forall>b. 0 \<le> b \<and> b < num_bins \<longrightarrow>
         sb_mem (ss ! i) (send_right_bins num_bins + (my_bin_index b + INDEX_CLOSEST))
           = nearest cs b (- 1) (int i) (2 ^ k) \<and>
         sb_mem (ss ! i) (send_left_bins num_bins + (my_bin_index b + INDEX_CLOSEST))
           = nearest cs b 1 (int i) (2 ^ k) \<and>
         sb_mem (ss ! i) (send_right_bins num_bins + (my_bin_index b + INDEX_COUNT))
           = count_bin cs b (max 0 (int i - 2 ^ k + 1)) (int i) \<and>
         sb_mem (ss ! i) (send_left_bins num_bins + (my_bin_index b + INDEX_COUNT))
           = count_bin cs b (int i) (min (int (length cs) - 1) (int i + 2 ^ k - 1)))"
proof -
  assume ready: "split_ready num_bins cs" and k: "k = 0 \<or> 2 ^ (k - 1) < length cs"
  from split_begin_all [OF ready] obtain ss0
    where b: "collect (map split_begin cs) = Inr ss0" by blast
  from split_rounds_inv [OF ready b k] obtain ss
    where r: "split_rounds k cs ss0 = Inr ss" "scan_inv_all cs num_bins k ss" by blast
  have len: "length ss = length cs"
    and inv: "\<And>i. i < length cs \<Longrightarrow> scan_inv cs num_bins k i (ss ! i)"
    using r(2) by (simp_all add: scan_inv_all_def)
  have cells: "sb_mem (ss ! i) (send_right_bins num_bins + (my_bin_index b + INDEX_CLOSEST))
           = nearest cs b (- 1) (int i) (2 ^ k) \<and>
         sb_mem (ss ! i) (send_left_bins num_bins + (my_bin_index b + INDEX_CLOSEST))
           = nearest cs b 1 (int i) (2 ^ k) \<and>
         sb_mem (ss ! i) (send_right_bins num_bins + (my_bin_index b + INDEX_COUNT))
           = count_bin cs b (max 0 (int i - 2 ^ k + 1)) (int i) \<and>
         sb_mem (ss ! i) (send_left_bins num_bins + (my_bin_index b + INDEX_COUNT))
           = count_bin cs b (int i) (min (int (length cs) - 1) (int i + 2 ^ k - 1))"
    if "i < length cs" "0 \<le> b \<and> b < num_bins" for i b
    using inv [OF that(1)] that(2) unfolding scan_inv_def by blast
  show ?thesis
    using b r(1) len cells by (intro exI [of _ ss0] exI [of _ ss]) simp
qed

text \<open>
  On a ring, a member that calls with \<open>my_bin < 0\<close> starts with count 0 and closest
  \<^verbatim>\<open>MPI_PROC_NULL\<close> in every cell of both send buffers and runs the same number of
  rounds as every other member. When the members with \<open>my_bin < 0\<close> are replaced, at the
  same positions of the same ring, by members that pass any bin no coloured member
  uses, every coloured member obtains the same descriptor.
\<close>

lemma split_bin_opt_out_neutral:
  "split_ready num_bins cs \<Longrightarrow> split_ready num_bins cs' \<Longrightarrow> length cs' = length cs \<Longrightarrow>
   (\<forall>j<length cs. c_in (cs' ! j) = c_in (cs ! j) \<and> c_out (cs' ! j) = c_out (cs ! j)) \<Longrightarrow>
   (\<forall>j<length cs. 0 \<le> c_my_bin (cs ! j) \<longrightarrow> c_my_bin (cs' ! j) = c_my_bin (cs ! j)) \<Longrightarrow>
   (\<forall>j<length cs. c_my_bin (cs ! j) < 0 \<longrightarrow>
      (\<forall>i<length cs. 0 \<le> c_my_bin (cs ! i) \<longrightarrow> c_my_bin (cs' ! j) \<noteq> c_my_bin (cs ! i))) \<Longrightarrow>
   \<exists>rs rs'. lwgrp_ring_split_bin cs = Some (Inr rs) \<and> length rs = length cs \<and>
      lwgrp_ring_split_bin cs' = Some (Inr rs') \<and> length rs' = length cs \<and>
      (\<forall>i<length cs. c_my_bin (cs ! i) < 0 \<longrightarrow>
         (\<exists>s. split_begin (cs ! i) = Inr s \<and>
            (\<forall>b. 0 \<le> b \<and> b < num_bins \<longrightarrow>
               sb_mem s (send_left_bins num_bins + (my_bin_index b + INDEX_COUNT)) = 0 \<and>
               sb_mem s (send_right_bins num_bins + (my_bin_index b + INDEX_COUNT)) = 0 \<and>
               sb_mem s (send_left_bins num_bins + (my_bin_index b + INDEX_CLOSEST)) = MPI_PROC_NULL \<and>
               sb_mem s (send_right_bins num_bins + (my_bin_index b + INDEX_CLOSEST)) = MPI_PROC_NULL)) \<and>
         (\<forall>j<length cs. r_rounds (rs ! i) = r_rounds (rs ! j))) \<and>
      (\<forall>i<length cs. 0 \<le> c_my_bin (cs ! i) \<longrightarrow> r_out (rs' ! i) = r_out (rs ! i))"
proof -
  assume ready: "split_ready num_bins cs" and ready': "split_ready num_bins cs'"
    and len: "length cs' = length cs"
    and io: "\<forall>j<length cs. c_in (cs' ! j) = c_in (cs ! j) \<and> c_out (cs' ! j) = c_out (cs ! j)"
    and col: "\<forall>j<length cs. 0 \<le> c_my_bin (cs ! j) \<longrightarrow> c_my_bin (cs' ! j) = c_my_bin (cs ! j)"
    and opt: "\<forall>j<length cs. c_my_bin (cs ! j) < 0 \<longrightarrow>
      (\<forall>i<length cs. 0 \<le> c_my_bin (cs ! i) \<longrightarrow> c_my_bin (cs' ! j) \<noteq> c_my_bin (cs ! i))"
  note pos = split_ready_basic(2) [OF ready]
  show ?thesis
  proof (rule split_bin_each [OF ready])
    fix K ss
    assume o:
      "lwgrp_ring_split_bin cs = Some (Inr (map (\<lambda>(c, s). split_finish c s) (zip cs ss)))"
      "length ss = length cs" "length cs \<le> 2 ^ K" "K = 0 \<or> 2 ^ (K - 1) < length cs"
      "\<And>i. i < length cs \<Longrightarrow> scan_inv cs num_bins K i (ss ! i)"
      "\<And>i. i < length cs \<Longrightarrow>
         map (\<lambda>(c, s). split_finish c s) (zip cs ss) ! i = split_finish (cs ! i) (ss ! i)"
    show ?thesis
    proof (rule split_bin_each [OF ready'])
      fix K' ss'
      assume o':
        "lwgrp_ring_split_bin cs' = Some (Inr (map (\<lambda>(c, s). split_finish c s) (zip cs' ss')))"
        "length ss' = length cs'" "length cs' \<le> 2 ^ K'" "K' = 0 \<or> 2 ^ (K' - 1) < length cs'"
        "\<And>i. i < length cs' \<Longrightarrow> scan_inv cs' num_bins K' i (ss' ! i)"
        "\<And>i. i < length cs' \<Longrightarrow>
           map (\<lambda>(c, s). split_finish c s) (zip cs' ss') ! i = split_finish (cs' ! i) (ss' ! i)"
      define rs where "rs = map (\<lambda>(c, s). split_finish c s) (zip cs ss)"
      define rs' where "rs' = map (\<lambda>(c, s). split_finish c s) (zip cs' ss')"
      have KK: "K' = K"
        using o'(3,4) o(3,4) pos unfolding len by (intro rounds_unique [of "length cs"])
      have rounds: "r_rounds (rs ! i) = K" if "i < length cs" for i
        unfolding rs_def o(6) [OF that]
        by (rule split_finish_fields(2) [OF ready that o(5) [OF that] o(3)])
      have seeds: "\<exists>s. split_begin (cs ! i) = Inr s \<and>
            (\<forall>b. 0 \<le> b \<and> b < num_bins \<longrightarrow>
               sb_mem s (send_left_bins num_bins + (my_bin_index b + INDEX_COUNT)) = 0 \<and>
               sb_mem s (send_right_bins num_bins + (my_bin_index b + INDEX_COUNT)) = 0 \<and>
               sb_mem s (send_left_bins num_bins + (my_bin_index b + INDEX_CLOSEST)) = MPI_PROC_NULL \<and>
               sb_mem s (send_right_bins num_bins + (my_bin_index b + INDEX_CLOSEST)) = MPI_PROC_NULL)"
        if i: "i < length cs" and neg: "c_my_bin (cs ! i) < 0" for i
      proof -
        from split_begin_inv [OF ready i] obtain s
          where s: "split_begin (cs ! i) = Inr s" "scan_inv cs num_bins 0 i s" by blast
        have other: "bin_at cs (int i) \<noteq> b" if "0 \<le> b" for b
          using that neg i by (simp add: bin_at_nth)
        have "sb_mem s (send_left_bins num_bins + (my_bin_index b + INDEX_COUNT)) = 0 \<and>
               sb_mem s (send_right_bins num_bins + (my_bin_index b + INDEX_COUNT)) = 0 \<and>
               sb_mem s (send_left_bins num_bins + (my_bin_index b + INDEX_CLOSEST)) = MPI_PROC_NULL \<and>
               sb_mem s (send_right_bins num_bins + (my_bin_index b + INDEX_CLOSEST)) = MPI_PROC_NULL"
          if b: "0 \<le> b \<and> b < num_bins" for b
        proof -
          have c: "sb_mem s (send_right_bins num_bins + (my_bin_index b + INDEX_COUNT))
                 = count_bin cs b (max 0 (int i - 2 ^ 0 + 1)) (int i)"
            "sb_mem s (send_right_bins num_bins + (my_bin_index b + INDEX_CLOSEST))
                 = nearest cs b (- 1) (int i) (2 ^ 0)"
            "sb_mem s (send_left_bins num_bins + (my_bin_index b + INDEX_COUNT))
                 = count_bin cs b (int i) (min (int (length cs) - 1) (int i + 2 ^ 0 - 1))"
            "sb_mem s (send_left_bins num_bins + (my_bin_index b + INDEX_CLOSEST))
                 = nearest cs b 1 (int i) (2 ^ 0)"
            using s(2) b unfolding scan_inv_def by blast+
          have w: "max 0 (int i - 2 ^ 0 + 1) = int i"
            "min (int (length cs) - 1) (int i + 2 ^ 0 - 1) = int i"
            using i by simp_all
          show ?thesis
            unfolding c w using other [of b] b by (simp add: count_bin_single)
        qed
        with s(1) show ?thesis by blast
      qed
      have frame: "r_out (rs' ! i) = r_out (rs ! i)"
        if i: "i < length cs" and c: "0 \<le> c_my_bin (cs ! i)" for i
      proof -
        define b where "b = c_my_bin (cs ! i)"
        have i': "i < length cs'" using i len by simp
        have b': "c_my_bin (cs' ! i) = b"
          using col i c by (simp add: b_def)
        have same: "comm_rank (c_in (cs' ! j)) = comm_rank (c_in (cs ! j)) \<and>
                  (c_my_bin (cs' ! j) = b \<longleftrightarrow> c_my_bin (cs ! j) = b)" if "j < length cs" for j
        proof (cases "0 \<le> c_my_bin (cs ! j)")
          case True
          then show ?thesis using col io that by simp
        next
          case False
          then have "c_my_bin (cs' ! j) \<noteq> b" "c_my_bin (cs ! j) \<noteq> b"
            using opt that i c by (auto simp: b_def)
          then show ?thesis using io that by simp
        qed
        have same2: "(c_my_bin (cs' ! j) = b \<longleftrightarrow> c_my_bin (cs ! j) = b)" if "j < length cs" for j
          using same [OF that] by simp
        have n: "nearest cs' b st j n = nearest cs b st j n" for st j n
          by (rule nearest_same_bin [OF len pos same])
        have f: "length (filter (\<lambda>c. c_my_bin c = b) (take n cs'))
               = length (filter (\<lambda>c. c_my_bin c = b) (take n cs))" for n
          by (rule filter_same_bin [OF len same2])
        have f2: "length (filter (\<lambda>c. c_my_bin c = b) cs')
                = length (filter (\<lambda>c. c_my_bin c = b) cs)"
          using f [of "length cs"] len by simp
        have c': "0 \<le> c_my_bin (cs' ! i)" using b' c by (simp add: b_def)
        have "r_out (rs' ! i) = r_out (split_finish (cs' ! i) (ss' ! i))"
          unfolding rs'_def o'(6) [OF i'] ..
        also have "\<dots> = (c_out (cs' ! i))\<lparr>comm := comm (c_in (cs' ! i)),
              comm_rank := comm_rank (c_in (cs' ! i)),
              comm_left := (if length cs' = 1 then comm_rank (c_in (cs' ! i))
                            else nearest cs' (c_my_bin (cs' ! i)) (- 1) (int i - 1) (2 ^ K' - 1)),
              comm_right := (if length cs' = 1 then comm_rank (c_in (cs' ! i))
                             else nearest cs' (c_my_bin (cs' ! i)) 1 (int i + 1) (2 ^ K' - 1)),
              group_rank := int (length (filter (\<lambda>c. c_my_bin c = c_my_bin (cs' ! i)) (take i cs'))),
              group_size := int (length (filter (\<lambda>c. c_my_bin c = c_my_bin (cs' ! i)) cs'))\<rparr>"
          by (rule split_finish_fields(4) [OF ready' i' o'(5) [OF i'] o'(3) c'])
        also have "\<dots> = (c_out (cs ! i))\<lparr>comm := comm (c_in (cs ! i)),
              comm_rank := comm_rank (c_in (cs ! i)),
              comm_left := (if length cs = 1 then comm_rank (c_in (cs ! i))
                            else nearest cs b (- 1) (int i - 1) (2 ^ K - 1)),
              comm_right := (if length cs = 1 then comm_rank (c_in (cs ! i))
                             else nearest cs b 1 (int i + 1) (2 ^ K - 1)),
              group_rank := int (length (filter (\<lambda>c. c_my_bin c = b) (take i cs))),
              group_size := int (length (filter (\<lambda>c. c_my_bin c = b) cs))\<rparr>"
          unfolding b' n f f2 KK len using io i by simp
        also have "\<dots> = r_out (split_finish (cs ! i) (ss ! i))"
          unfolding b_def by (rule split_finish_fields(4) [OF ready i o(5) [OF i] o(3) c, symmetric])
        also have "\<dots> = r_out (rs ! i)"
          unfolding rs_def o(6) [OF i] ..
        finally show ?thesis .
      qed
      have "lwgrp_ring_split_bin cs = Some (Inr rs)" "length rs = length cs"
        "lwgrp_ring_split_bin cs' = Some (Inr rs')" "length rs' = length cs"
        using o(1,2) o'(1,2) len by (simp_all add: rs_def rs'_def)
      then show ?thesis
        using seeds rounds frame by (intro exI [of _ rs] exI [of _ rs']) simp
    qed
  qed
qed

text \<open>
  On a ring of \<open>N\<close> members the all-to-all returns for every member after exactly \<open>N\<close>
  rounds. The operations posted and the receive buffer are those of \<open>posted_log\<close> and
  \<open>received\<close>. A ring of one, whose member is its own left and right neighbour, runs
  exactly one round, in which all six operations are posted to its own rank and its
  own elements arrive in its receive buffer.
\<close>

lemma alltoallv_ring_rounds:
  "alltoallv_ready cs \<Longrightarrow>
   \<exists>rs. lwgrp_ring_alltoallv_linear cs = Some (Inr rs) \<and> length rs = length cs \<and>
     (\<forall>i<length cs. ar_code (rs ! i) = 0 \<and> ar_rounds (rs ! i) = length cs \<and>
        ar_requests (rs ! i) = posted_log cs i (length cs) \<and>
        ar_recvbuf (rs ! i) = received cs i (length cs)) \<and>
     (length cs = 1 \<longrightarrow>
        (let t = comm_rank (a_group (cs ! 0)) in
         ar_rounds (rs ! 0) = 1 \<and>
         ar_requests (rs ! 0) = [Isend t, Isend t, Irecv t, Irecv t, Isend t, Irecv t] \<and>
         (\<forall>k. 0 \<le> k \<and> k < a_sendcounts (cs ! 0) ! nat t \<longrightarrow>
            ar_recvbuf (rs ! 0) (a_recvdispls (cs ! 0) ! nat t + k)
              = a_sendbuf (cs ! 0) (a_senddispls (cs ! 0) ! nat t + k))))"
proof -
  assume ready: "alltoallv_ready cs"
  from alltoallv_loop_inv [OF ready alltoallv_begin_all [OF ready]] obtain ss
    where l: "alltoallv_loop cs (map alltoallv_begin cs) = Some (Inr ss)"
      "al_inv_all cs (length cs) ss" by auto
  define rs where "rs = map alltoallv_finish ss"
  have len: "length ss = length cs"
    and inv: "\<And>i. i < length cs \<Longrightarrow> al_inv cs (length cs) i (ss ! i)"
    using l(2) by (simp_all add: al_inv_all_def)
  have run: "lwgrp_ring_alltoallv_linear cs = Some (Inr rs)" "length rs = length cs"
    using l(1) len by (simp_all add: lwgrp_ring_alltoallv_linear_def rs_def)
  have each: "ar_code (rs ! i) = 0 \<and> ar_rounds (rs ! i) = length cs \<and>
        ar_requests (rs ! i) = posted_log cs i (length cs) \<and>
        ar_recvbuf (rs ! i) = received cs i (length cs)" if "i < length cs" for i
    using inv [OF that] that len by (simp add: rs_def alltoallv_finish_def al_inv_def)
  have one: "(let t = comm_rank (a_group (cs ! 0)) in
         ar_rounds (rs ! 0) = 1 \<and>
         ar_requests (rs ! 0) = [Isend t, Isend t, Irecv t, Irecv t, Isend t, Irecv t] \<and>
         (\<forall>k. 0 \<le> k \<and> k < a_sendcounts (cs ! 0) ! nat t \<longrightarrow>
            ar_recvbuf (rs ! 0) (a_recvdispls (cs ! 0) ! nat t + k)
              = a_sendbuf (cs ! 0) (a_senddispls (cs ! 0) ! nat t + k)))"
    if single: "length cs = 1"
  proof -
    define t where "t = comm_rank (a_group (cs ! 0))"
    have r: "member_rank cs j = t" for j
      by (simp add: member_rank_def single t_def)
    have e: "ar_rounds (rs ! 0) = 1" "ar_requests (rs ! 0) = posted_log cs 0 (Suc 0)"
      "ar_recvbuf (rs ! 0) = received cs 0 (Suc 0)"
      using each [of 0] single by simp_all
    have log: "ar_requests (rs ! 0) = [Isend t, Isend t, Irecv t, Irecv t, Isend t, Irecv t]"
      unfolding e(2) by (simp add: r)
    have buf: "ar_recvbuf (rs ! 0) (a_recvdispls (cs ! 0) ! nat t + k)
              = a_sendbuf (cs ! 0) (a_senddispls (cs ! 0) ! nat t + k)"
      if "0 \<le> k \<and> k < a_sendcounts (cs ! 0) ! nat t" for k
    proof -
      have "k < int (length (sent (cs ! 0) t))" using that by (simp add: sent_def)
      then have "ar_recvbuf (rs ! 0) (a_recvdispls (cs ! 0) ! nat t + k) = sent (cs ! 0) t ! nat k"
        unfolding e(3) using that by (simp add: r single store_data_inside)
      also have "\<dots> = a_sendbuf (cs ! 0) (a_senddispls (cs ! 0) ! nat t + k)"
        using that by (simp add: sent_def nat_less_iff)
      finally show ?thesis .
    qed
    show ?thesis
      unfolding Let_def t_def [symmetric] using e(1) log buf by blast
  qed
  show ?thesis
    using run each one by (intro exI [of _ rs]) blast
qed

section \<open>The claims\<close>


text \<open>
  C2. After the all-to-all, for every ordered pair \<open>(s, d)\<close> of members the elements
  that \<open>s\<close> addresses to \<open>d\<close> are in the receive buffer of \<open>d\<close> at the displacement for
  \<open>s\<close>. The code does not deliver every pair: a process forwards its current source to
  its current destination, so the hop to the partner doubles each round instead of
  growing by one. In the ring of four, the partners of a process are one hop away,
  then two, then itself twice; no process ever receives from its right neighbour.
  Process 0 ends with its slot for rank 1 still holding the initial \<open>- 1\<close>, where the
  claim wants the 100 that process 1 addressed to it.
\<close>

theorem alltoallv_ring4_misses_pair:
  "(case lwgrp_ring_alltoallv_linear exchange4 of
      Some (Inr rs) \<Rightarrow>
        map (\<lambda>r. (ar_code r, map (ar_recvbuf r) [0, 1, 2, 3], ar_rounds r)) rs
        = [(0, [0, - 1, 200, 300], 4), (0, [1, 101, - 1, 301], 4),
           (0, [2, 102, 202, - 1], 4), (0, [- 1, 103, 203, 303], 4)]
    | _ \<Rightarrow> False)"
  by code_simp






text \<open>
  C6. The all-to-all on a chain of size \<open>N\<close> runs exactly \<open>N\<close> rounds, and a chain of one
  runs one round in which it sends to itself and receives from itself, source and
  destination being its own rank. The code takes source and destination from the
  neighbour fields of the descriptor. The split gives the lone member of bin 1 in
  \<open>colors4\<close> a descriptor of size 1 with \<^verbatim>\<open>MPI_PROC_NULL\<close> on both sides, which is also
  the singleton chain of the specification; called with it, the all-to-all reads its
  displacement and count arrays at index \<^verbatim>\<open>MPI_PROC_NULL\<close>, before the arrays, and sends
  nothing to itself.
\<close>

theorem alltoallv_lone_member_no_self_send:
  "(case lwgrp_ring_split_bin colors4 of
      Some (Inr rs) \<Rightarrow>
        r_out (rs ! 1) = \<lparr>comm = 0, comm_rank = 11, comm_left = MPI_PROC_NULL,
                           comm_right = MPI_PROC_NULL, group_rank = 0, group_size = 1\<rparr> \<and>
        (case lwgrp_ring_alltoallv_linear
                [\<lparr>a_sendbuf = (\<lambda>k. 40 + k), a_sendcounts = replicate 12 1,
                  a_senddispls = replicate 12 5, a_recvbuf = (\<lambda>k. - 1),
                  a_recvcounts = replicate 12 1, a_recvdispls = replicate 12 7,
                  a_group = r_out (rs ! 1), a_src_next = 0, a_dst_next = 0\<rparr>] of
           Some (Inl f) \<Rightarrow> f = BadIndex
         | _ \<Rightarrow> False)
    | _ \<Rightarrow> False)"
  by code_simp

text \<open>
  C7. The split reports an invalid argument when \<open>my_bin \<ge> num_bins\<close> or
  \<open>num_bins < 1\<close>, and reports a failed allocation, leaving the output untouched. The
  code does neither: both checks have an empty body. With \<open>my_bin = num_bins = 1\<close> a
  group of one returns \<^verbatim>\<open>LWGRP_SUCCESS\<close> and a group of size 1; with \<open>num_bins = 0\<close> it
  returns \<^verbatim>\<open>LWGRP_SUCCESS\<close> and the null group; and when the allocation fails with
  \<open>num_bins = 1\<close>, the clearing loop writes through the null block.
\<close>

theorem split_bin_reports_no_error:
  "lwgrp_ring_split_bin
     [\<lparr>c_num_bins = 1, c_my_bin = 1,
       c_in = \<lparr>comm = k, comm_rank = 0, comm_left = 0, comm_right = 0,
               group_rank = 0, group_size = 1\<rparr>,
       c_out = out, c_bins = Some m\<rparr>]
   = Some (Inr [\<lparr>r_code = LWGRP_SUCCESS,
                  r_out = out\<lparr>comm := k, comm_rank := 0, comm_left := 0, comm_right := 0,
                              group_rank := 0, group_size := 1\<rparr>,
                  r_rounds = 0\<rparr>])
   \<and> lwgrp_ring_split_bin
     [\<lparr>c_num_bins = 0, c_my_bin = - 1,
       c_in = \<lparr>comm = k, comm_rank = 0, comm_left = 0, comm_right = 0,
               group_rank = 0, group_size = 1\<rparr>,
       c_out = out, c_bins = Some m\<rparr>]
   = Some (Inr [\<lparr>r_code = LWGRP_SUCCESS, r_out = lwgrp_ring_set_null out, r_rounds = 0\<rparr>])
   \<and> lwgrp_ring_split_bin
     [\<lparr>c_num_bins = 1, c_my_bin = 0,
       c_in = \<lparr>comm = k, comm_rank = 0, comm_left = 0, comm_right = 0,
               group_rank = 0, group_size = 1\<rparr>,
       c_out = out, c_bins = None\<rparr>]
   = Some (Inl NullBlock)"
proof (intro conjI)
  let ?g = "\<lparr>comm = k, comm_rank = 0, comm_left = 0, comm_right = 0,
               group_rank = 0, group_size = 1\<rparr>"
  let ?s1 = "\<lparr>sb_mem = seed_bins 1 1 0 (init_bins 1 0 m),
                sb_left_rank = 0, sb_right_rank = 0, sb_my_left = MPI_PROC_NULL,
                sb_my_right = MPI_PROC_NULL, sb_dist = 1, sb_waits = 0\<rparr>"
  have cells: "seed_bins 1 1 0 (init_bins 1 0 m) 8 = 1" "seed_bins 1 1 0 (init_bins 1 0 m) 2 = 1"
    by (simp_all add: seed_bins_def layout_defs)
  have "split_begin \<lparr>c_num_bins = 1, c_my_bin = 1, c_in = ?g, c_out = out, c_bins = Some m\<rparr>
      = Inr ?s1"
    by (simp only: split_begin_def Let_def split_call.simps lwgrp_ring.simps)
      (simp add: layout_defs)
  from one_call [OF this]
  show "lwgrp_ring_split_bin
     [\<lparr>c_num_bins = 1, c_my_bin = 1, c_in = ?g, c_out = out, c_bins = Some m\<rparr>]
   = Some (Inr [\<lparr>r_code = LWGRP_SUCCESS,
                  r_out = out\<lparr>comm := k, comm_rank := 0, comm_left := 0, comm_right := 0,
                              group_rank := 0, group_size := 1\<rparr>,
                  r_rounds = 0\<rparr>])"
    by (simp add: split_active_def split_finish_def Let_def cells layout_defs)
  let ?s0 = "\<lparr>sb_mem = seed_bins 0 (- 1) 0 (init_bins 0 0 m),
                sb_left_rank = 0, sb_right_rank = 0, sb_my_left = MPI_PROC_NULL,
                sb_my_right = MPI_PROC_NULL, sb_dist = 1, sb_waits = 0\<rparr>"
  have "split_begin \<lparr>c_num_bins = 0, c_my_bin = - 1, c_in = ?g, c_out = out, c_bins = Some m\<rparr>
      = Inr ?s0"
    by (simp only: split_begin_def Let_def split_call.simps lwgrp_ring.simps)
      (simp add: layout_defs)
  from one_call [OF this]
  show "lwgrp_ring_split_bin
     [\<lparr>c_num_bins = 0, c_my_bin = - 1, c_in = ?g, c_out = out, c_bins = Some m\<rparr>]
   = Some (Inr [\<lparr>r_code = LWGRP_SUCCESS, r_out = lwgrp_ring_set_null out, r_rounds = 0\<rparr>])"
    by (simp add: split_active_def split_finish_def Let_def)
  have "split_begin \<lparr>c_num_bins = 1, c_my_bin = 0, c_in = ?g, c_out = out, c_bins = None\<rparr>
      = Inl NullBlock"
    by (simp only: split_begin_def Let_def split_call.simps lwgrp_ring.simps)
      (simp add: layout_defs)
  then show "lwgrp_ring_split_bin
     [\<lparr>c_num_bins = 1, c_my_bin = 0, c_in = ?g, c_out = out, c_bins = None\<rparr>]
   = Some (Inl NullBlock)"
    by (simp add: lwgrp_ring_split_bin_def)
qed



text \<open>
  C10. Called with a null group (group size 0), the all-to-all runs no round: it posts
  no operation, leaves the receive buffer as it was and returns 0, the value of
  \<^verbatim>\<open>LWGRP_SUCCESS\<close>.
\<close>

theorem alltoallv_null_group:
  "list_all (\<lambda>c. group_size (a_group c) = 0) cs \<Longrightarrow>
   lwgrp_ring_alltoallv_linear cs
   = Some (Inr (map (\<lambda>c. \<lparr>ar_code = LWGRP_SUCCESS, ar_recvbuf = a_recvbuf c, ar_rounds = 0,
                            ar_requests = []\<rparr>) cs))"
proof -
  assume null: "list_all (\<lambda>c. group_size (a_group c) = 0) cs"
  have idle: "\<not> list_ex (\<lambda>(c, s). alltoallv_active c s) (zip cs (map alltoallv_begin cs))"
    using null
    by (auto simp: zip_map_same list_ex_iff list_all_iff alltoallv_active_def alltoallv_begin_def)
  have "alltoallv_loop cs (map alltoallv_begin cs) = Some (Inr (map alltoallv_begin cs))"
    by (subst alltoallv_loop.simps) (simp add: idle)
  then show ?thesis
    by (simp add: lwgrp_ring_alltoallv_linear_def alltoallv_finish_def alltoallv_begin_def
        LWGRP_SUCCESS_def)
qed

theorem alltoallv_null_group_witness:
  "lwgrp_ring_alltoallv_linear [null_call]
   = Some (Inr [\<lparr>ar_code = LWGRP_SUCCESS, ar_recvbuf = a_recvbuf null_call, ar_rounds = 0,
                  ar_requests = []\<rparr>])"
  using alltoallv_null_group [of "[null_call]"] by (simp add: null_call_def)

end
